theory Spec2Isabelle
  imports Main "HOL-Library.Word"
begin

section \<open>Data model of package limlistener\<close>

text \<open>
  The package wraps a \<^verbatim>\<open>net.Listener\<close> and the connections it accepts, and throttles
  \<^verbatim>\<open>Write\<close> through two token buckets of \<^verbatim>\<open>golang.org/x/time/rate\<close>.

  The token buckets, the raw listener and the raw connections are external collaborators.
  Of a \<^verbatim>\<open>rate.Limiter\<close> the model keeps the two configuration values the package sets,
  its rate and its burst; what \<^verbatim>\<open>WaitN\<close> answers is an input of the model.
  Limiters are shared through pointers, so they live in an explicit store: a list of
  limiter objects in which an address is an index, \<^verbatim>\<open>rate.NewLimiter\<close> appends a cell
  and nothing is ever freed.
\<close>

datatype error = Error string

datatype panic = NilDereference | TypeAssertion | SliceBounds

text \<open>\<^verbatim>\<open>rlimit.Limit(x)\<close>: the conversion of an \<^verbatim>\<open>int\<close> to the limiter's rate type, kept symbolic.\<close>

datatype Limit = Limit int

record Limiter =
  limit :: Limit
  burst :: int

type_synonym addr = nat

definition NewLimiter :: "Limit \<Rightarrow> int \<Rightarrow> Limiter" where
  "NewLimiter r b = \<lparr>limit = r, burst = b\<rparr>"

text \<open>
  \<^verbatim>\<open>(*rate.Limiter).SetLimit\<close> through a non-nil pointer: the rate of that cell changes.
  A Go pointer always refers to an object; an address outside the store, which only
  the model can express, changes nothing.
\<close>

definition Limiter_SetLimit :: "addr \<Rightarrow> Limit \<Rightarrow> Limiter list \<Rightarrow> Limiter list" where
  "Limiter_SetLimit a r h = (if a < length h then h[a := (h ! a)\<lparr>limit := r\<rparr>] else h)"

definition defaultMTU :: int where
  "defaultMTU = 1024"

text \<open>
  \<^verbatim>\<open>LimitedConn\<close>. The raw connection is an interface value: \<open>None\<close> is nil, \<open>Some r\<close> the
  raw connection \<open>r\<close>. The two limiter fields are pointers: \<open>None\<close> is nil.
\<close>

record LimitedConn =
  lc_id :: int
  lc_conn :: "nat option"
  lc_globalLimiter :: "addr option"
  lc_connLimiter :: "addr option"
  lc_mtu :: int

text \<open>
  \<^verbatim>\<open>LimitedListener\<close>. The registry \<^verbatim>\<open>conns\<close> is a slice of pointers to connection
  structs; each of these structs is referenced from the registry only (Accept hands a
  copy to the caller), so the registry is modelled as the list of the structs.
\<close>

record LimitedListener =
  ll_n_conns :: int
  ll_listener :: "nat option"
  ll_globalLimiter :: "addr option"
  ll_connLimit :: int
  ll_mtu :: int
  ll_conns :: "LimitedConn list"

text \<open>
  The state the listener's methods work on: the listener struct, the store of limiter
  objects, and the raw connections on which \<^verbatim>\<open>Close\<close> has been called.
\<close>

record State =
  ll :: LimitedListener
  heap :: "Limiter list"
  closed :: "nat list"

text \<open>A \<^verbatim>\<open>net.Conn\<close> interface value, by its dynamic type.\<close>

datatype NetConn =
    NilConn
  | RawConn nat
  | LimitedConnVal LimitedConn
  | LimitedConnPtr LimitedConn

text \<open>Go's \<^verbatim>\<open>int\<close> on a 64-bit platform: arithmetic wraps around in two's complement.\<close>

definition wrap :: "int \<Rightarrow> int" where
  "wrap x = (x + 2 ^ 63) mod 2 ^ 64 - 2 ^ 63"

section \<open>The listener\<close>

definition NewWithListener :: "nat option \<Rightarrow> State" where
  "NewWithListener l =
     \<lparr>ll = \<lparr>ll_n_conns = 0, ll_listener = l, ll_globalLimiter = None, ll_connLimit = 0,
             ll_mtu = defaultMTU, ll_conns = []\<rparr>,
      heap = [], closed = []\<rparr>"

text \<open>
  \<^verbatim>\<open>(*LimitedConn).SetLimit\<close>, on a registry struct and the store: a nil per-connection
  limiter is created first, then the rate is set.
\<close>

definition SetLimit :: "int \<Rightarrow> LimitedConn \<Rightarrow> Limiter list \<Rightarrow> LimitedConn \<times> Limiter list" where
  "SetLimit lim lc h =
     (case lc_connLimiter lc of
        None \<Rightarrow>
          (lc\<lparr>lc_connLimiter := Some (length h)\<rparr>,
           Limiter_SetLimit (length h) (Limit lim) (h @ [NewLimiter (Limit lim) (lc_mtu lc)]))
      | Some a \<Rightarrow> (lc, Limiter_SetLimit a (Limit lim) h))"

text \<open>The loop \<^verbatim>\<open>for _, conn := range ll.conns { conn.SetLimit(connLimit) }\<close>.\<close>

fun SetLimit_conns :: "int \<Rightarrow> LimitedConn list \<Rightarrow> Limiter list \<Rightarrow> LimitedConn list \<times> Limiter list" where
  "SetLimit_conns lim [] h = ([], h)"
| "SetLimit_conns lim (c # cs) h =
     (case SetLimit lim c h of
        (c', h') \<Rightarrow> (case SetLimit_conns lim cs h' of (cs', h'') \<Rightarrow> (c' # cs', h'')))"

definition SetLimits :: "int \<Rightarrow> int \<Rightarrow> State \<Rightarrow> State" where
  "SetLimits globalLimit connLimit st =
     (let (g, h1) =
            (case ll_globalLimiter (ll st) of
               None \<Rightarrow> (length (heap st),
                         heap st @ [NewLimiter (Limit globalLimit) (ll_mtu (ll st))])
             | Some a \<Rightarrow> (a, heap st));
          h2 = Limiter_SetLimit g (Limit globalLimit) h1;
          (cs, h3) = SetLimit_conns connLimit (ll_conns (ll st)) h2
      in st\<lparr>ll := (ll st)\<lparr>ll_globalLimiter := Some g, ll_connLimit := connLimit,
                             ll_conns := cs\<rparr>,
             heap := h3\<rparr>)"

text \<open>
  \<^verbatim>\<open>Accept\<close>. The answer \<open>(conn, err)\<close> of the raw listener's \<^verbatim>\<open>Accept\<close> is an input.
  Calling a method of a nil listener panics. The result is the returned pair and the
  new state.
\<close>

definition Accept :: "nat option \<times> error option \<Rightarrow> State \<Rightarrow> panic + (NetConn \<times> error option) \<times> State" where
  "Accept raw st =
     (case ll_listener (ll st) of
        None \<Rightarrow> Inl NilDereference
      | Some l \<Rightarrow>
          (let (conn, err) = raw;
               conn_id = ll_n_conns (ll st);
               lconn = \<lparr>lc_id = conn_id, lc_conn = conn,
                        lc_globalLimiter = ll_globalLimiter (ll st),
                        lc_connLimiter = Some (length (heap st)),
                        lc_mtu = ll_mtu (ll st)\<rparr>
           in Inr ((LimitedConnVal lconn, err),
                   st\<lparr>ll := (ll st)\<lparr>ll_n_conns := wrap (conn_id + 1),
                                       ll_conns := ll_conns (ll st) @ [lconn]\<rparr>,
                      heap := heap st @ [NewLimiter (Limit (ll_connLimit (ll st))) (ll_mtu (ll st))]\<rparr>)))"

text \<open>The index of the first registry entry with the given identity.\<close>

fun find_id :: "int \<Rightarrow> LimitedConn list \<Rightarrow> nat option" where
  "find_id x [] = None"
| "find_id x (c # cs) = (if lc_id c = x then Some 0 else map_option Suc (find_id x cs))"

text \<open>
  The removal loop of \<^verbatim>\<open>CloseConnection\<close>: the first entry with the identity is
  overwritten by the last entry, and the slice loses its last element.
\<close>

definition evict :: "int \<Rightarrow> LimitedConn list \<Rightarrow> LimitedConn list" where
  "evict x cs = (case find_id x cs of None \<Rightarrow> cs | Some i \<Rightarrow> butlast (cs[i := last cs]))"

text \<open>
  \<^verbatim>\<open>CloseConnection\<close>. The type assertion \<^verbatim>\<open>conn.(LimitedConn)\<close> has no comma-ok form:
  it panics on every other dynamic type. \<^verbatim>\<open>conn.Close()\<close> is then
  \<^verbatim>\<open>lconn.conn.Close()\<close>, a panic when the raw connection is nil.
\<close>

definition CloseConnection :: "NetConn \<Rightarrow> State \<Rightarrow> panic + State" where
  "CloseConnection conn st =
     (case conn of
        LimitedConnVal lconn \<Rightarrow>
          (case lc_conn lconn of
             None \<Rightarrow> Inl NilDereference
           | Some r \<Rightarrow>
               Inr (st\<lparr>closed := closed st @ [r],
                       ll := (ll st)\<lparr>ll_conns := evict (lc_id lconn) (ll_conns (ll st)),
                                       ll_n_conns := wrap (ll_n_conns (ll st) - 1)\<rparr>\<rparr>))
      | _ \<Rightarrow> Inl TypeAssertion)"

subsection \<open>Sequences of listener operations\<close>

text \<open>
  A call of one of the listener's state-changing methods, with the answer of the raw
  listener for \<^verbatim>\<open>Accept\<close>; a sequence of calls runs until the first panic.
\<close>

datatype op =
    OpAccept "nat option" "error option"
  | OpSetLimits int int
  | OpCloseConnection NetConn

fun exec :: "op \<Rightarrow> State \<Rightarrow> panic + State" where
  "exec (OpAccept conn err) st =
     (case Accept (conn, err) st of Inl p \<Rightarrow> Inl p | Inr (res, st') \<Rightarrow> Inr st')"
| "exec (OpSetLimits globalLimit connLimit) st = Inr (SetLimits globalLimit connLimit st)"
| "exec (OpCloseConnection conn) st = CloseConnection conn st"

fun run :: "op list \<Rightarrow> State \<Rightarrow> panic + State" where
  "run [] st = Inr st"
| "run (x # xs) st = (case exec x st of Inl p \<Rightarrow> Inl p | Inr st' \<Rightarrow> run xs st')"

fun is_CloseConnection :: "op \<Rightarrow> bool" where
  "is_CloseConnection (OpCloseConnection conn) = True"
| "is_CloseConnection x = False"

fun count_Accept :: "op list \<Rightarrow> nat" where
  "count_Accept [] = 0"
| "count_Accept (OpAccept conn err # xs) = Suc (count_Accept xs)"
| "count_Accept (x # xs) = count_Accept xs"

text \<open>
  What Go's memory safety and the package's own code guarantee of the pointers in a
  listener state: the global limiter, when there is one, is an object of the store, and
  every registered connection has a per-connection limiter that is an object of the
  store other than the global limiter.
\<close>

definition wf_State :: "State \<Rightarrow> bool" where
  "wf_State st =
     ((case ll_globalLimiter (ll st) of None \<Rightarrow> True | Some g \<Rightarrow> g < length (heap st)) \<and>
      (\<forall>c \<in> set (ll_conns (ll st)).
         case lc_connLimiter c of
           None \<Rightarrow> False
         | Some a \<Rightarrow> a < length (heap st) \<and> Some a \<noteq> ll_globalLimiter (ll st)))"

section \<open>The connection\<close>

type_synonym byte = "8 word"

text \<open>
  What the external collaborators answer during one call of \<^verbatim>\<open>Write\<close>, by the number
  \<open>i\<close> of the loop iteration: the answer of \<^verbatim>\<open>lc.connLimiter.WaitN(ctx, n)\<close> and of
  \<^verbatim>\<open>lc.globalLimiter.WaitN(ctx, n)\<close>, which of the two goroutines sends its answer to the
  channel first, and the answer \<open>(w, err)\<close> of the raw connection's \<^verbatim>\<open>Write(s)\<close>.
  Every call of a collaborator is taken to return.
\<close>

record Env =
  connWaitN :: "nat \<Rightarrow> int \<Rightarrow> error option"
  globalWaitN :: "nat \<Rightarrow> int \<Rightarrow> error option"
  connFirst :: "nat \<Rightarrow> bool"
  rawWrite :: "nat \<Rightarrow> byte list \<Rightarrow> int \<times> error option"

text \<open>
  \<^verbatim>\<open>waitN\<close>. Two goroutines each send the answer of one limiter to the channel
  \<^verbatim>\<open>done\<close>, whose buffer holds both; a third closes the channel once both have sent.
  The scheduler decides the order of the two answers in the channel.
\<close>

definition done_chan :: "bool \<Rightarrow> error option \<Rightarrow> error option \<Rightarrow> error option list" where
  "done_chan cf c g = (if cf then [c, g] else [g, c])"

text \<open>The loop \<^verbatim>\<open>for err := range done\<close>: the first non-nil answer is returned, else nil.\<close>

fun range_done :: "error option list \<Rightarrow> error option" where
  "range_done [] = None"
| "range_done (e # es) = (case e of Some err \<Rightarrow> Some err | None \<Rightarrow> range_done es)"

text \<open>Calling \<^verbatim>\<open>WaitN\<close> through a nil limiter pointer panics.\<close>

definition waitN :: "Env \<Rightarrow> LimitedConn \<Rightarrow> nat \<Rightarrow> int \<Rightarrow> panic + error option" where
  "waitN env lc i n =
     (case lc_connLimiter lc of
        None \<Rightarrow> Inl NilDereference
      | Some c \<Rightarrow>
          (case lc_globalLimiter lc of
             None \<Rightarrow> Inl NilDereference
           | Some g \<Rightarrow>
               Inr (range_done (done_chan (connFirst env i)
                                  (connWaitN env i n) (globalWaitN env i n)))))"

text \<open>\<^verbatim>\<open>lc.conn.Write(s)\<close>: a panic when the raw connection is nil.\<close>

definition conn_Write :: "Env \<Rightarrow> LimitedConn \<Rightarrow> nat \<Rightarrow> byte list \<Rightarrow> panic + int \<times> error option" where
  "conn_Write env lc i s =
     (case lc_conn lc of None \<Rightarrow> Inl NilDereference | Some r \<Rightarrow> Inr (rawWrite env i s))"

text \<open>
  The loop of \<^verbatim>\<open>Write\<close>, in iteration \<open>i\<close>, with the rest \<open>b\<close> of the data, the count
  \<open>n\<close> and the chunks \<open>sent\<close> handed to the raw connection so far. The result is what
  \<^verbatim>\<open>Write\<close> returns (or the panic) and the chunks handed to the raw connection, in
  order. \<^verbatim>\<open>b[:lc.mtu]\<close> panics for a negative \<^verbatim>\<open>mtu\<close>. With \<^verbatim>\<open>mtu\<close> zero the loop makes
  no progress, and it need not end: not returning is the value \<open>None\<close>.
\<close>

partial_function (option) Write_loop ::
  "Env \<Rightarrow> LimitedConn \<Rightarrow> nat \<Rightarrow> byte list \<Rightarrow> int \<Rightarrow> byte list list
     \<Rightarrow> ((panic + int \<times> error option) \<times> byte list list) option" where
  "Write_loop env lc i b n sent =
     (if length b > 0 then
        (if int (length b) > lc_mtu lc \<and> lc_mtu lc < 0 then Some (Inl SliceBounds, sent)
         else
           (let s = (if int (length b) > lc_mtu lc then take (nat (lc_mtu lc)) b else b);
                b' = drop (length s) b
            in case waitN env lc i (int (length s)) of
                 Inl p \<Rightarrow> Some (Inl p, sent)
               | Inr (Some err) \<Rightarrow> Some (Inr (0, Some err), sent)
               | Inr None \<Rightarrow>
                   (case conn_Write env lc i s of
                      Inl p \<Rightarrow> Some (Inl p, sent)
                    | Inr (w, Some err) \<Rightarrow> Some (Inr (0, Some err), sent @ [s])
                    | Inr (w, None) \<Rightarrow>
                        Write_loop env lc (i + 1) b' (wrap (n + w)) (sent @ [s]))))
      else Some (Inr (n, None), sent))"

declare Write_loop.simps [code]

definition Write ::
  "Env \<Rightarrow> LimitedConn \<Rightarrow> byte list
     \<Rightarrow> ((panic + int \<times> error option) \<times> byte list list) option" where
  "Write env lc b = Write_loop env lc 0 b 0 []"

text \<open>
  The specification's chunking of the data, for comparison with what \<^verbatim>\<open>Write\<close> hands
  to the raw connection: consecutive pieces of \<open>m\<close> bytes, the last one the remainder.
\<close>

function spec_chunks :: "nat \<Rightarrow> 'a list \<Rightarrow> 'a list list" where
  "spec_chunks m b = (if m = 0 \<or> b = [] then [] else take m b # spec_chunks m (drop m b))"
  by pat_completeness auto
termination
  by (relation "measure (\<lambda>(m, b). length b)") auto

declare spec_chunks.simps [simp del]

subsection \<open>Example inputs\<close>

text \<open>The listener after \<^verbatim>\<open>SetLimits(100, 50)\<close> and one successful \<^verbatim>\<open>Accept\<close>.\<close>

definition ex_State :: State where
  "ex_State =
     \<lparr>ll = \<lparr>ll_n_conns = 1, ll_listener = Some 0, ll_globalLimiter = Some 0,
             ll_connLimit = 50, ll_mtu = 1024,
             ll_conns = [\<lparr>lc_id = 0, lc_conn = Some 7, lc_globalLimiter = Some 0,
                          lc_connLimiter = Some 1, lc_mtu = 1024\<rparr>]\<rparr>,
      heap = [\<lparr>limit = Limit 100, burst = 1024\<rparr>, \<lparr>limit = Limit 50, burst = 1024\<rparr>],
      closed = []\<rparr>"

text \<open>A connection with chunk size 2, and collaborators whose third joint wait fails.\<close>

definition ex_conn :: LimitedConn where
  "ex_conn = \<lparr>lc_id = 0, lc_conn = Some 7, lc_globalLimiter = Some 0,
              lc_connLimiter = Some 1, lc_mtu = 2\<rparr>"

definition ex_Env :: Env where
  "ex_Env =
     \<lparr>connWaitN = (\<lambda>i n. None),
      globalWaitN = (\<lambda>i n. if i = 2 then Some (Error ''canceled'') else None),
      connFirst = (\<lambda>i. True),
      rawWrite = (\<lambda>i s. (int (length s), None))\<rparr>"

text \<open>Collaborators that always succeed.\<close>

definition ex_Env_ok :: Env where
  "ex_Env_ok =
     \<lparr>connWaitN = (\<lambda>i n. None), globalWaitN = (\<lambda>i n. None), connFirst = (\<lambda>i. False),
      rawWrite = (\<lambda>i s. (int (length s), None))\<rparr>"

section \<open>Auxiliary facts about the listener\<close>

lemma wrap_id: "- (2 ^ 63) \<le> x \<Longrightarrow> x < 2 ^ 63 \<Longrightarrow> wrap x = x"
  unfolding wrap_def by (simp add: mod_pos_pos_trivial)


lemma SetLimit_conns_ids: "SetLimit_conns c cs h = (cs', h') \<Longrightarrow> map lc_id cs' = map lc_id cs"
proof (induction cs arbitrary: h cs' h')
  case Nil
  then show ?case by simp
next
  case (Cons x xs)
  then show ?case
    by (auto simp: SetLimit_def split: prod.splits option.splits)
qed

lemma SetLimits_n_conns: "ll_n_conns (ll (SetLimits g c st)) = ll_n_conns (ll st)"
  by (simp add: SetLimits_def Let_def split: prod.splits option.splits)

lemma SetLimits_ids: "map lc_id (ll_conns (ll (SetLimits g c st))) = map lc_id (ll_conns (ll st))"
  by (auto simp: SetLimits_def Let_def split: prod.splits option.splits dest: SetLimit_conns_ids)

lemma SetLimits_listener: "ll_listener (ll (SetLimits g c st)) = ll_listener (ll st)"
  by (simp add: SetLimits_def Let_def split: prod.splits option.splits)

lemma run_append: "run (xs @ ys) st = (case run xs st of Inl p \<Rightarrow> Inl p | Inr st' \<Rightarrow> run ys st')"
  by (induction xs arbitrary: st) (auto split: sum.splits)

lemma no_close_run:
  assumes "\<forall>x \<in> set ops. \<not> is_CloseConnection x"
    and "ll_listener (ll st) \<noteq> None"
    and "0 \<le> ll_n_conns (ll st)"
    and "ll_n_conns (ll st) + int (count_Accept ops) < 2 ^ 63"
  shows "\<exists>st'. run ops st = Inr st' \<and>
           ll_listener (ll st') = ll_listener (ll st) \<and>
           ll_n_conns (ll st') = ll_n_conns (ll st) + int (count_Accept ops) \<and>
           map lc_id (ll_conns (ll st')) =
             map lc_id (ll_conns (ll st)) @ map (\<lambda>k. ll_n_conns (ll st) + int k) [0..<count_Accept ops]"
  using assms
proof (induction ops arbitrary: st)
  case Nil
  then show ?case by simp
next
  case (Cons x xs)
  show ?case
  proof (cases x)
    case (OpAccept conn err)
    obtain l where l: "ll_listener (ll st) = Some l" using Cons.prems(2) by auto
    define st1 where "st1 = snd (projr (Accept (conn, err) st))"
    have ex: "exec x st = Inr st1"
      by (simp add: OpAccept st1_def Accept_def l Let_def)
    have n1: "ll_n_conns (ll st1) = ll_n_conns (ll st) + 1"
      using Cons.prems(3,4) by (simp add: st1_def Accept_def l Let_def OpAccept wrap_id)
    have l1: "ll_listener (ll st1) = ll_listener (ll st)"
      by (simp add: st1_def Accept_def l Let_def)
    have ids1: "map lc_id (ll_conns (ll st1)) = map lc_id (ll_conns (ll st)) @ [ll_n_conns (ll st)]"
      by (simp add: st1_def Accept_def l Let_def)
    have "\<exists>st'. run xs st1 = Inr st' \<and>
           ll_listener (ll st') = ll_listener (ll st1) \<and>
           ll_n_conns (ll st') = ll_n_conns (ll st1) + int (count_Accept xs) \<and>
           map lc_id (ll_conns (ll st')) =
             map lc_id (ll_conns (ll st1)) @ map (\<lambda>k. ll_n_conns (ll st1) + int k) [0..<count_Accept xs]"
      using Cons.prems by (intro Cons.IH) (simp_all add: n1 l1 OpAccept)
    then obtain st' where st': "run xs st1 = Inr st'"
      "ll_listener (ll st') = ll_listener (ll st1)"
      "ll_n_conns (ll st') = ll_n_conns (ll st1) + int (count_Accept xs)"
      "map lc_id (ll_conns (ll st')) =
             map lc_id (ll_conns (ll st1)) @ map (\<lambda>k. ll_n_conns (ll st1) + int k) [0..<count_Accept xs]"
      by blast
    have "map (\<lambda>k. ll_n_conns (ll st) + int k) [0..<Suc (count_Accept xs)] =
          ll_n_conns (ll st) # map (\<lambda>k. ll_n_conns (ll st) + 1 + int k) [0..<count_Accept xs]"
      by (simp add: upt_conv_Cons map_Suc_upt[symmetric] del: upt_Suc)
    then show ?thesis
      using st' ex by (simp add: OpAccept n1 l1 ids1 del: upt_Suc)
  next
    case (OpSetLimits g c)
    have "\<exists>st'. run xs (SetLimits g c st) = Inr st' \<and>
           ll_listener (ll st') = ll_listener (ll (SetLimits g c st)) \<and>
           ll_n_conns (ll st') = ll_n_conns (ll (SetLimits g c st)) + int (count_Accept xs) \<and>
           map lc_id (ll_conns (ll st')) =
             map lc_id (ll_conns (ll (SetLimits g c st))) @ map (\<lambda>k. ll_n_conns (ll (SetLimits g c st)) + int k) [0..<count_Accept xs]"
      using Cons.prems
      by (intro Cons.IH) (simp_all add: OpSetLimits SetLimits_n_conns SetLimits_listener)
    then show ?thesis
      by (simp add: OpSetLimits SetLimits_n_conns SetLimits_listener SetLimits_ids)
  next
    case (OpCloseConnection c)
    then show ?thesis using Cons.prems(1) by simp
  qed
qed

lemma Limiter_SetLimit_length: "length (Limiter_SetLimit a r h) = length h"
  by (simp add: Limiter_SetLimit_def)

lemma Limiter_SetLimit_nth:
  "x < length h \<Longrightarrow>
     Limiter_SetLimit a r h ! x = (if x = a then (h ! x)\<lparr>limit := r\<rparr> else h ! x)"
  by (simp add: Limiter_SetLimit_def)

lemma SetLimit_conns_some:
  assumes "\<forall>lc \<in> set cs. lc_connLimiter lc \<noteq> None"
  shows "\<exists>h'. SetLimit_conns lim cs h = (cs, h') \<and> length h' = length h \<and>
           (\<forall>x < length h. h' ! x =
              (if Some x \<in> lc_connLimiter ` set cs then (h ! x)\<lparr>limit := Limit lim\<rparr> else h ! x))"
  using assms
proof (induction cs arbitrary: h)
  case Nil
  then show ?case by simp
next
  case (Cons c cs)
  from Cons.prems obtain a where a: "lc_connLimiter c = Some a" by auto
  define h1 where "h1 = Limiter_SetLimit a (Limit lim) h"
  have s1: "SetLimit lim c h = (c, h1)"
    using a by (simp add: SetLimit_def h1_def)
  have len1: "length h1 = length h" by (simp add: h1_def Limiter_SetLimit_length)
  have "\<forall>c \<in> set cs. lc_connLimiter c \<noteq> None"
    using Cons.prems by simp
  from Cons.IH[OF this, of h1] obtain h' where h':
    "SetLimit_conns lim cs h1 = (cs, h')" "length h' = length h1"
    "\<forall>x < length h1. h' ! x =
        (if Some x \<in> lc_connLimiter ` set cs then (h1 ! x)\<lparr>limit := Limit lim\<rparr> else h1 ! x)"
    by blast
  have "\<forall>x < length h. h' ! x =
          (if Some x \<in> lc_connLimiter ` set (c # cs) then (h ! x)\<lparr>limit := Limit lim\<rparr> else h ! x)"
  proof (intro allI impI)
    fix x assume x: "x < length h"
    have h1x: "h1 ! x = (if x = a then (h ! x)\<lparr>limit := Limit lim\<rparr> else h ! x)"
      unfolding h1_def using x by (rule Limiter_SetLimit_nth)
    show "h' ! x = (if Some x \<in> lc_connLimiter ` set (c # cs) then (h ! x)\<lparr>limit := Limit lim\<rparr> else h ! x)"
    proof (cases "x = a")
      case True
      then show ?thesis using h'(3) x a len1 h1x by simp
    next
      case False
      then have "Some x \<in> lc_connLimiter ` set (c # cs) \<longleftrightarrow> Some x \<in> lc_connLimiter ` set cs"
        using a by auto
      then show ?thesis using h'(3) x False len1 h1x by simp
    qed
  qed
  then show ?case using s1 h' len1 by simp
qed

lemma SetLimit_step:
  assumes "SetLimit lim c h = (c', h')"
  shows "(\<exists>a. lc_connLimiter c' = Some a \<and> (a < length h' \<longrightarrow> limit (h' ! a) = Limit lim) \<and>
              (\<forall>x < length h. x \<noteq> a \<longrightarrow> h' ! x = h ! x) \<and>
              (\<forall>x. length h \<le> x \<longrightarrow> x < length h' \<longrightarrow> x = a)) \<and>
         length h \<le> length h' \<and>
         (\<forall>x < length h. limit (h ! x) = Limit lim \<longrightarrow> limit (h' ! x) = Limit lim)"
proof (cases "lc_connLimiter c")
  case None
  then have c': "c' = c\<lparr>lc_connLimiter := Some (length h)\<rparr>"
    and h': "h' = Limiter_SetLimit (length h) (Limit lim) (h @ [NewLimiter (Limit lim) (lc_mtu c)])"
    using assms by (simp_all add: SetLimit_def)
  have len: "length h' = Suc (length h)" by (simp add: h' Limiter_SetLimit_length)
  have new: "h' ! length h = \<lparr>limit = Limit lim, burst = lc_mtu c\<rparr>"
    by (simp add: h' Limiter_SetLimit_def NewLimiter_def)
  have old: "x < length h \<Longrightarrow> h' ! x = h ! x" for x
    by (simp add: h' Limiter_SetLimit_def nth_append)
  show ?thesis
    using len new old by (auto simp: c')
next
  case (Some a)
  then have c': "c' = c" and h': "h' = Limiter_SetLimit a (Limit lim) h"
    using assms by (simp_all add: SetLimit_def)
  have len: "length h' = length h" by (simp add: h' Limiter_SetLimit_length)
  have nth: "x < length h \<Longrightarrow> h' ! x = (if x = a then (h ! x)\<lparr>limit := Limit lim\<rparr> else h ! x)" for x
    unfolding h' by (rule Limiter_SetLimit_nth)
  show ?thesis
    using len nth Some by (auto simp: c')
qed

lemma SetLimit_conns_pass:
  assumes "SetLimit_conns lim cs h = (cs1, h1)"
  shows "(\<forall>lc \<in> set cs1. lc_connLimiter lc \<noteq> None) \<and>
         length h \<le> length h1 \<and>
         (\<forall>x < length h1. Some x \<in> lc_connLimiter ` set cs1 \<longrightarrow> limit (h1 ! x) = Limit lim) \<and>
         (\<forall>x < length h. Some x \<notin> lc_connLimiter ` set cs1 \<longrightarrow> h1 ! x = h ! x) \<and>
         (\<forall>x. length h \<le> x \<longrightarrow> x < length h1 \<longrightarrow> Some x \<in> lc_connLimiter ` set cs1) \<and>
         (\<forall>x < length h. limit (h ! x) = Limit lim \<longrightarrow> limit (h1 ! x) = Limit lim)"
  using assms
proof (induction cs arbitrary: h cs1 h1)
  case Nil
  then show ?case by auto
next
  case (Cons c cs)
  obtain c' h' where s: "SetLimit lim c h = (c', h')" by (cases "SetLimit lim c h")
  obtain cs' h'' where r: "SetLimit_conns lim cs h' = (cs', h'')"
    by (cases "SetLimit_conns lim cs h'")
  have res: "cs1 = c' # cs'" "h1 = h''" using Cons.prems s r by simp_all
  from SetLimit_step[OF s] obtain a where a:
    "lc_connLimiter c' = Some a" "a < length h' \<longrightarrow> limit (h' ! a) = Limit lim"
    "\<forall>x < length h. x \<noteq> a \<longrightarrow> h' ! x = h ! x"
    "\<forall>x. length h \<le> x \<longrightarrow> x < length h' \<longrightarrow> x = a"
    "length h \<le> length h'"
    "\<forall>x < length h. limit (h ! x) = Limit lim \<longrightarrow> limit (h' ! x) = Limit lim"
    by blast
  from Cons.IH[OF r] have ih:
    "\<forall>lc \<in> set cs'. lc_connLimiter lc \<noteq> None"
    "length h' \<le> length h''"
    "\<forall>x < length h''. Some x \<in> lc_connLimiter ` set cs' \<longrightarrow> limit (h'' ! x) = Limit lim"
    "\<forall>x < length h'. Some x \<notin> lc_connLimiter ` set cs' \<longrightarrow> h'' ! x = h' ! x"
    "\<forall>x. length h' \<le> x \<longrightarrow> x < length h'' \<longrightarrow> Some x \<in> lc_connLimiter ` set cs'"
    "\<forall>x < length h'. limit (h' ! x) = Limit lim \<longrightarrow> limit (h'' ! x) = Limit lim"
    by blast+
  have mem: "Some x \<in> lc_connLimiter ` set (c' # cs') \<longleftrightarrow> x = a \<or> Some x \<in> lc_connLimiter ` set cs'" for x
    using a(1) by auto
  have p1: "\<forall>lc \<in> set (c' # cs'). lc_connLimiter lc \<noteq> None"
    using ih(1) a(1) by simp
  have p2: "length h \<le> length h''" using a(5) ih(2) by simp
  have p3: "\<forall>x < length h''. Some x \<in> lc_connLimiter ` set (c' # cs') \<longrightarrow> limit (h'' ! x) = Limit lim"
  proof (intro allI impI)
    fix x assume x: "x < length h''" "Some x \<in> lc_connLimiter ` set (c' # cs')"
    show "limit (h'' ! x) = Limit lim"
    proof (cases "Some x \<in> lc_connLimiter ` set cs'")
      case True
      then show ?thesis using ih(3) x(1) by blast
    next
      case False
      then have xa: "x = a" using x(2) mem by blast
      have "x < length h'" using ih(5) False x(1) by (meson not_le)
      then show ?thesis using a(2) ih(6) xa by blast
    qed
  qed
  have p4: "\<forall>x < length h. Some x \<notin> lc_connLimiter ` set (c' # cs') \<longrightarrow> h'' ! x = h ! x"
  proof (intro allI impI)
    fix x assume x: "x < length h" "Some x \<notin> lc_connLimiter ` set (c' # cs')"
    then have "x \<noteq> a" "Some x \<notin> lc_connLimiter ` set cs'" using mem by blast+
    moreover have "x < length h'" using x(1) a(5) by simp
    ultimately show "h'' ! x = h ! x" using ih(4) a(3) x(1) by simp
  qed
  have p5: "\<forall>x. length h \<le> x \<longrightarrow> x < length h'' \<longrightarrow> Some x \<in> lc_connLimiter ` set (c' # cs')"
  proof (intro allI impI)
    fix x assume x: "length h \<le> x" "x < length h''"
    show "Some x \<in> lc_connLimiter ` set (c' # cs')"
    proof (cases "x < length h'")
      case True
      then have "x = a" using a(4) x(1) by blast
      then show ?thesis using mem by blast
    next
      case False
      then have "Some x \<in> lc_connLimiter ` set cs'" using ih(5) x(2) by simp
      then show ?thesis using mem by blast
    qed
  qed
  have p6: "\<forall>x < length h. limit (h ! x) = Limit lim \<longrightarrow> limit (h'' ! x) = Limit lim"
  proof (intro allI impI)
    fix x assume x: "x < length h" "limit (h ! x) = Limit lim"
    then have "limit (h' ! x) = Limit lim" using a(6) by blast
    moreover have "x < length h'" using x(1) a(5) by simp
    ultimately show "limit (h'' ! x) = Limit lim" using ih(6) by blast
  qed
  show ?case unfolding res using p1 p2 p3 p4 p5 p6 by blast
qed

lemma SetLimit_conns_valid:
  assumes "\<forall>c \<in> set cs. \<exists>a. lc_connLimiter c = Some a \<and> a < length h"
  shows "\<exists>h'. SetLimit_conns lim cs h = (cs, h') \<and> length h' = length h \<and>
           (\<forall>x < length h. h' ! x =
              (if Some x \<in> lc_connLimiter ` set cs then (h ! x)\<lparr>limit := Limit lim\<rparr> else h ! x))"
proof -
  have "\<forall>lc \<in> set cs. lc_connLimiter lc \<noteq> None" using assms by auto
  then show ?thesis by (rule SetLimit_conns_some)
qed

lemma SetLimits_wf_form:
  assumes "wf_State st"
  shows "\<exists>ga h3.
           SetLimits g c st =
             st\<lparr>ll := (ll st)\<lparr>ll_globalLimiter := Some ga, ll_connLimit := c\<rparr>, heap := h3\<rparr> \<and>
           (case ll_globalLimiter (ll st) of
              None \<Rightarrow> ga = length (heap st) \<and> length h3 = Suc (length (heap st)) \<and>
                        h3 ! ga = \<lparr>limit = Limit g, burst = ll_mtu (ll st)\<rparr>
            | Some a \<Rightarrow> ga = a \<and> length h3 = length (heap st) \<and>
                        h3 ! ga = (heap st ! a)\<lparr>limit := Limit g\<rparr>) \<and>
           (\<forall>x < length (heap st). x \<noteq> ga \<longrightarrow>
              h3 ! x = (if Some x \<in> lc_connLimiter ` set (ll_conns (ll st))
                        then (heap st ! x)\<lparr>limit := Limit c\<rparr> else heap st ! x))"
proof -
  define cs where "cs = ll_conns (ll st)"
  define ga where "ga = (case ll_globalLimiter (ll st) of None \<Rightarrow> length (heap st) | Some a \<Rightarrow> a)"
  define h1 where "h1 = (case ll_globalLimiter (ll st) of
       None \<Rightarrow> heap st @ [NewLimiter (Limit g) (ll_mtu (ll st))] | Some a \<Rightarrow> heap st)"
  define h2 where "h2 = Limiter_SetLimit ga (Limit g) h1"
  have wf1: "\<forall>lc \<in> set cs. \<exists>a. lc_connLimiter lc = Some a \<and> a < length (heap st) \<and> Some a \<noteq> ll_globalLimiter (ll st)"
    using assms by (auto simp: wf_State_def cs_def split: option.splits)
  have ga_lt: "ga < length h1"
    using assms by (auto simp: wf_State_def ga_def h1_def split: option.splits)
  have len2: "length h2 = length h1" by (simp add: h2_def Limiter_SetLimit_def)
  have len1: "length (heap st) \<le> length h1" by (simp add: h1_def split: option.splits)
  have h2_ga: "h2 ! ga = (h1 ! ga)\<lparr>limit := Limit g\<rparr>"
    using ga_lt by (simp add: h2_def Limiter_SetLimit_def)
  have h2_other: "x \<noteq> ga \<Longrightarrow> h2 ! x = h1 ! x" for x
    by (simp add: h2_def Limiter_SetLimit_def)
  have h1_old: "x < length (heap st) \<Longrightarrow> h1 ! x = heap st ! x" for x
    by (simp add: h1_def nth_append split: option.splits)
  have "\<forall>lc \<in> set cs. \<exists>a. lc_connLimiter lc = Some a \<and> a < length h2"
    using wf1 len1 len2 by fastforce
  from SetLimit_conns_valid[OF this, of c] obtain h3 where h3:
    "SetLimit_conns c cs h2 = (cs, h3)" "length h3 = length h2"
    "\<forall>x < length h2. h3 ! x =
        (if Some x \<in> lc_connLimiter ` set cs then (h2 ! x)\<lparr>limit := Limit c\<rparr> else h2 ! x)"
    by blast
  have ga_not_conn: "Some ga \<notin> lc_connLimiter ` set cs"
    using wf1 by (auto simp: ga_def split: option.splits)
  have res: "SetLimits g c st =
      st\<lparr>ll := (ll st)\<lparr>ll_globalLimiter := Some ga, ll_connLimit := c\<rparr>, heap := h3\<rparr>"
    using h3(1)
    by (simp add: SetLimits_def Let_def ga_def h1_def h2_def cs_def split: option.splits)
  have g_part: "(case ll_globalLimiter (ll st) of
              None \<Rightarrow> ga = length (heap st) \<and> length h3 = Suc (length (heap st)) \<and>
                        h3 ! ga = \<lparr>limit = Limit g, burst = ll_mtu (ll st)\<rparr>
            | Some a \<Rightarrow> ga = a \<and> length h3 = length (heap st) \<and>
                        h3 ! ga = (heap st ! a)\<lparr>limit := Limit g\<rparr>)"
  proof (cases "ll_globalLimiter (ll st)")
    case None
    then have "ga = length (heap st)" "h1 = heap st @ [NewLimiter (Limit g) (ll_mtu (ll st))]"
      by (simp_all add: ga_def h1_def)
    then show ?thesis
      using None h3(2,3) len2 ga_not_conn h2_ga ga_lt
      by (simp add: NewLimiter_def)
  next
    case (Some a)
    then have "ga = a" "h1 = heap st" by (simp_all add: ga_def h1_def)
    then show ?thesis
      using Some h3(2,3) len2 ga_not_conn h2_ga ga_lt
      by simp
  qed
  have o_part: "\<forall>x < length (heap st). x \<noteq> ga \<longrightarrow>
              h3 ! x = (if Some x \<in> lc_connLimiter ` set (ll_conns (ll st))
                        then (heap st ! x)\<lparr>limit := Limit c\<rparr> else heap st ! x)"
    using h3(3) len1 len2 h2_other h1_old by (simp add: cs_def)
  show ?thesis
    using res g_part o_part by blast
qed

lemma wf_State_SetLimits:
  assumes "wf_State st"
  shows "wf_State (SetLimits g c st)"
proof -
  from SetLimits_wf_form[OF assms, of g c] obtain ga h3 where f:
    "SetLimits g c st =
             st\<lparr>ll := (ll st)\<lparr>ll_globalLimiter := Some ga, ll_connLimit := c\<rparr>, heap := h3\<rparr>"
    "(case ll_globalLimiter (ll st) of
              None \<Rightarrow> ga = length (heap st) \<and> length h3 = Suc (length (heap st)) \<and>
                        h3 ! ga = \<lparr>limit = Limit g, burst = ll_mtu (ll st)\<rparr>
            | Some a \<Rightarrow> ga = a \<and> length h3 = length (heap st) \<and>
                        h3 ! ga = (heap st ! a)\<lparr>limit := Limit g\<rparr>)"
    by blast
  show ?thesis
    using assms f(2) unfolding f(1) wf_State_def
    by (auto split: option.splits)
qed

lemma wf_State_New: "wf_State (NewWithListener l)"
  by (simp add: wf_State_def NewWithListener_def)

lemma wf_State_Accept:
  assumes "wf_State st" and "Accept raw st = Inr (res, st')"
  shows "wf_State st'"
proof -
  obtain conn err where raw: "raw = (conn, err)" by (cases raw)
  have st': "st' = st\<lparr>ll := (ll st)\<lparr>ll_n_conns := wrap (ll_n_conns (ll st) + 1),
                     ll_conns := ll_conns (ll st) @
                       [\<lparr>lc_id = ll_n_conns (ll st), lc_conn = conn,
                         lc_globalLimiter = ll_globalLimiter (ll st),
                         lc_connLimiter = Some (length (heap st)),
                         lc_mtu = ll_mtu (ll st)\<rparr>]\<rparr>,
             heap := heap st @ [NewLimiter (Limit (ll_connLimit (ll st))) (ll_mtu (ll st))]\<rparr>"
    using assms(2) by (auto simp: Accept_def Let_def raw split: option.splits)
  have g: "case ll_globalLimiter (ll st) of None \<Rightarrow> True | Some g \<Rightarrow> g < length (heap st)"
    and cs: "\<forall>c \<in> set (ll_conns (ll st)).
         case lc_connLimiter c of
           None \<Rightarrow> False
         | Some a \<Rightarrow> a < length (heap st) \<and> Some a \<noteq> ll_globalLimiter (ll st)"
    using assms(1) by (simp_all add: wf_State_def)
  have g': "case ll_globalLimiter (ll st') of None \<Rightarrow> True | Some g \<Rightarrow> g < length (heap st')"
    using g by (simp add: st' less_Suc_eq split: option.splits)
  have new: "Some (length (heap st)) \<noteq> ll_globalLimiter (ll st)"
    using g by (auto split: option.splits)
  have cs': "\<forall>c \<in> set (ll_conns (ll st')).
         case lc_connLimiter c of
           None \<Rightarrow> False
         | Some a \<Rightarrow> a < length (heap st') \<and> Some a \<noteq> ll_globalLimiter (ll st')"
  proof
    fix c assume "c \<in> set (ll_conns (ll st'))"
    then consider "c \<in> set (ll_conns (ll st))"
      | "lc_connLimiter c = Some (length (heap st))"
      by (auto simp: st')
    then show "case lc_connLimiter c of
           None \<Rightarrow> False
         | Some a \<Rightarrow> a < length (heap st') \<and> Some a \<noteq> ll_globalLimiter (ll st')"
    proof cases
      case 1
      with cs have "case lc_connLimiter c of
           None \<Rightarrow> False
         | Some a \<Rightarrow> a < length (heap st) \<and> Some a \<noteq> ll_globalLimiter (ll st)" by blast
      then show ?thesis by (simp add: st' less_Suc_eq split: option.splits)
    next
      case 2
      then show ?thesis using new by (simp add: st')
    qed
  qed
  show ?thesis using g' cs' by (simp add: wf_State_def)
qed

lemma find_id_bound: "find_id x cs = Some i \<Longrightarrow> i < length cs"
  by (induction cs arbitrary: i) (auto split: if_splits)

lemma set_evict: "set (evict x cs) \<subseteq> set cs"
proof (cases "find_id x cs")
  case None
  then show ?thesis by (simp add: evict_def)
next
  case (Some i)
  then have i: "i < length cs" by (rule find_id_bound)
  then have ne: "cs \<noteq> []" by auto
  have "set (butlast (cs[i := last cs])) \<subseteq> set (cs[i := last cs])"
    by (auto dest: in_set_butlastD)
  also have "\<dots> \<subseteq> insert (last cs) (set cs)" by (rule set_update_subset_insert)
  also have "\<dots> = set cs" using ne by auto
  finally show ?thesis using Some by (simp add: evict_def)
qed

lemma wf_State_CloseConnection:
  assumes "wf_State st" and "CloseConnection conn st = Inr st'"
  shows "wf_State st'"
proof -
  have h: "heap st' = heap st"
    using assms(2) by (cases conn) (auto simp: CloseConnection_def split: option.splits)
  have g: "ll_globalLimiter (ll st') = ll_globalLimiter (ll st)"
    using assms(2) by (cases conn) (auto simp: CloseConnection_def split: option.splits)
  have "\<exists>x. ll_conns (ll st') = evict x (ll_conns (ll st))"
    using assms(2) by (cases conn) (auto simp: CloseConnection_def split: option.splits)
  then obtain x where "ll_conns (ll st') = evict x (ll_conns (ll st))" by blast
  then have cs: "set (ll_conns (ll st')) \<subseteq> set (ll_conns (ll st))"
    by (simp add: set_evict)
  show ?thesis
    using assms(1) cs unfolding wf_State_def h g by blast
qed

lemma wf_State_exec: "wf_State st \<Longrightarrow> exec x st = Inr st' \<Longrightarrow> wf_State st'"
  by (cases x) (auto split: sum.splits dest: wf_State_Accept wf_State_CloseConnection
                     simp: wf_State_SetLimits)

lemma wf_State_run: "wf_State st \<Longrightarrow> run ops st = Inr st' \<Longrightarrow> wf_State st'"
  by (induction ops arbitrary: st) (auto split: sum.splits dest: wf_State_exec)

lemma wf_State_reachable: "run ops (NewWithListener l) = Inr st \<Longrightarrow> wf_State st"
  using wf_State_run[OF wf_State_New] .


lemma count_Accept_append: "count_Accept (xs @ ys) = count_Accept xs + count_Accept ys"
  by (induction xs rule: count_Accept.induct) simp_all

text \<open>
  Where identities are distinct: on a new listener, as long as only \<^verbatim>\<open>Accept\<close> and
  \<^verbatim>\<open>SetLimits\<close> are called and fewer than \<open>2^63\<close> connections are accepted, the counter
  equals the number of accepts and the accepted connections have the identities
  0, 1, 2, ... in the order of acceptance. Every \<^verbatim>\<open>CloseConnection\<close> that returns
  decrements the counter.
\<close>

lemma ids_distinct_without_CloseConnection:
  assumes "\<forall>x \<in> set (xs @ ys). \<not> is_CloseConnection x"
    and "int (count_Accept (xs @ ys)) < 2 ^ 63"
  shows "(\<exists>s1 s2. run xs (NewWithListener (Some l)) = Inr s1 \<and>
           run (xs @ ys) (NewWithListener (Some l)) = Inr s2 \<and>
           ll_n_conns (ll s1) \<le> ll_n_conns (ll s2) \<and>
           ll_n_conns (ll s2) = int (count_Accept (xs @ ys)) \<and>
           map lc_id (ll_conns (ll s2)) = map int [0..<count_Accept (xs @ ys)] \<and>
           distinct (map lc_id (ll_conns (ll s2)))) \<and>
         (\<forall>conn st st'. CloseConnection conn st = Inr st' \<longrightarrow>
            ll_n_conns (ll st') = wrap (ll_n_conns (ll st) - 1))"
proof -
  have cl: "ll_n_conns (ll st') = wrap (ll_n_conns (ll st) - 1)"
    if "CloseConnection conn st = Inr st'" for conn st st'
    using that by (cases conn) (auto simp: CloseConnection_def split: option.splits)
  define s0 where "s0 = NewWithListener (Some l)"
  have s0: "ll_listener (ll s0) \<noteq> None" "ll_n_conns (ll s0) = 0" "ll_conns (ll s0) = []"
    by (simp_all add: s0_def NewWithListener_def)
  have "\<forall>x \<in> set xs. \<not> is_CloseConnection x" using assms(1) by simp
  moreover have "ll_n_conns (ll s0) + int (count_Accept xs) < 2 ^ 63"
    using assms(2) by (simp add: s0 count_Accept_append)
  ultimately obtain s1 where s1: "run xs s0 = Inr s1"
    "ll_listener (ll s1) = ll_listener (ll s0)"
    "ll_n_conns (ll s1) = ll_n_conns (ll s0) + int (count_Accept xs)"
    using no_close_run[of xs s0] s0 by auto
  have "ll_n_conns (ll s0) + int (count_Accept (xs @ ys)) < 2 ^ 63"
    using assms(2) by (simp add: s0)
  then obtain s2 where s2: "run (xs @ ys) s0 = Inr s2"
    "ll_n_conns (ll s2) = ll_n_conns (ll s0) + int (count_Accept (xs @ ys))"
    "map lc_id (ll_conns (ll s2)) =
       map lc_id (ll_conns (ll s0)) @
       map (\<lambda>k. ll_n_conns (ll s0) + int k) [0..<count_Accept (xs @ ys)]"
    using no_close_run[of "xs @ ys" s0] assms(1) s0 by auto
  have ids: "map lc_id (ll_conns (ll s2)) = map int [0..<count_Accept (xs @ ys)]"
    using s2(3) by (simp add: s0)
  have "distinct (map int [0..<count_Accept (xs @ ys)])"
    by (simp add: distinct_map inj_on_def)
  then have "distinct (map lc_id (ll_conns (ll s2)))" by (simp add: ids)
  moreover have "ll_n_conns (ll s1) \<le> ll_n_conns (ll s2)"
    using s1(3) s2(2) by (simp add: count_Accept_append)
  ultimately have "\<exists>s1 s2. run xs (NewWithListener (Some l)) = Inr s1 \<and>
           run (xs @ ys) (NewWithListener (Some l)) = Inr s2 \<and>
           ll_n_conns (ll s1) \<le> ll_n_conns (ll s2) \<and>
           ll_n_conns (ll s2) = int (count_Accept (xs @ ys)) \<and>
           map lc_id (ll_conns (ll s2)) = map int [0..<count_Accept (xs @ ys)] \<and>
           distinct (map lc_id (ll_conns (ll s2)))"
    using s1(1) s2(1,2) ids unfolding s0_def by (simp add: s0[unfolded s0_def])
  then show ?thesis using cl by blast
qed

section \<open>Auxiliary facts about the chunking and the loop of Write\<close>

lemma spec_chunks_Nil: "spec_chunks m [] = []"
  by (simp add: spec_chunks.simps)

lemma spec_chunks_Cons:
  "0 < m \<Longrightarrow> b \<noteq> [] \<Longrightarrow> spec_chunks m b = take m b # spec_chunks m (drop m b)"
  by (subst spec_chunks.simps) simp

lemma spec_chunks_nonempty:
  "spec_chunks m b \<noteq> [] \<Longrightarrow> 0 < m \<and> b \<noteq> []"
  by (subst (asm) spec_chunks.simps) (simp split: if_splits)

lemma concat_spec_chunks: "0 < m \<Longrightarrow> concat (spec_chunks m b) = b"
proof (induction m b rule: spec_chunks.induct)
  case (1 m b)
  show ?case
  proof (cases "b = []")
    case True
    then show ?thesis by (simp add: spec_chunks_Nil)
  next
    case False
    have eq: "spec_chunks m b = take m b # spec_chunks m (drop m b)"
      using 1(2) False by (rule spec_chunks_Cons)
    have "concat (spec_chunks m (drop m b)) = drop m b"
      using 1 False by simp
    then show ?thesis by (simp add: eq)
  qed
qed

lemma spec_chunks_length_bounds:
  "c \<in> set (spec_chunks m b) \<Longrightarrow> 0 < length c \<and> length c \<le> m"
proof (induction m b rule: spec_chunks.induct)
  case (1 m b)
  have ne: "spec_chunks m b \<noteq> []" using 1(2) by auto
  then have m: "0 < m" and b: "b \<noteq> []" using spec_chunks_nonempty by blast+
  have eq: "spec_chunks m b = take m b # spec_chunks m (drop m b)"
    using m b by (rule spec_chunks_Cons)
  from 1(2) have "c = take m b \<or> c \<in> set (spec_chunks m (drop m b))"
    by (simp add: eq)
  then show ?case
  proof
    assume "c = take m b"
    then show ?thesis using m b by simp
  next
    assume "c \<in> set (spec_chunks m (drop m b))"
    then show ?thesis using 1(1) m b by simp
  qed
qed

lemma spec_chunks_full:
  "Suc i < length (spec_chunks m b) \<Longrightarrow> length (spec_chunks m b ! i) = m"
proof (induction m b arbitrary: i rule: spec_chunks.induct)
  case (1 m b)
  have ne: "spec_chunks m b \<noteq> []" using 1(2) by auto
  then have m: "0 < m" and b: "b \<noteq> []" using spec_chunks_nonempty by blast+
  have eq: "spec_chunks m b = take m b # spec_chunks m (drop m b)"
    using m b by (rule spec_chunks_Cons)
  show ?case
  proof (cases i)
    case 0
    have "spec_chunks m (drop m b) \<noteq> []" using 1(2) by (simp add: eq 0)
    then have "drop m b \<noteq> []" using spec_chunks_nonempty by blast
    then have "m < length b" by simp
    then show ?thesis by (simp add: 0 eq)
  next
    case (Suc i')
    have "Suc i' < length (spec_chunks m (drop m b))" using 1(2) by (simp add: eq Suc)
    then have "length (spec_chunks m (drop m b) ! i') = m"
      using 1(1) m b by simp
    then show ?thesis by (simp add: Suc eq)
  qed
qed

lemma spec_chunks_nth:
  "i < length (spec_chunks m b) \<Longrightarrow> spec_chunks m b ! i = take m (drop (i * m) b)"
proof (induction m b arbitrary: i rule: spec_chunks.induct)
  case (1 m b)
  have ne: "spec_chunks m b \<noteq> []" using 1(2) by auto
  then have m: "0 < m" and b: "b \<noteq> []" using spec_chunks_nonempty by blast+
  have eq: "spec_chunks m b = take m b # spec_chunks m (drop m b)"
    using m b by (rule spec_chunks_Cons)
  show ?case
  proof (cases i)
    case 0
    then show ?thesis by (simp add: eq)
  next
    case (Suc i')
    have "i' < length (spec_chunks m (drop m b))" using 1(2) by (simp add: eq Suc)
    then have ih: "spec_chunks m (drop m b) ! i' = take m (drop (i' * m) (drop m b))"
      using 1(1) m b by simp
    have ar: "i' * m + m = Suc i' * m" by simp
    have "drop (i' * m) (drop m b) = drop (i' * m + m) b" by (simp only: drop_drop)
    then have dd: "drop (i' * m) (drop m b) = drop (Suc i' * m) b" by (simp only: ar)
    have "spec_chunks m b ! i = spec_chunks m (drop m b) ! i'"
      by (simp only: eq Suc nth_Cons_Suc)
    then show ?thesis by (simp only: ih dd Suc)
  qed
qed

lemma spec_chunks_prefix_length:
  "k < length (spec_chunks m b) \<Longrightarrow>
     length (concat (take k (spec_chunks m b))) = k * m \<and> k * m < length b \<and>
     (\<forall>c \<in> set (take k (spec_chunks m b)). length c = m)"
proof (induction m b arbitrary: k rule: spec_chunks.induct)
  case (1 m b)
  have ne: "spec_chunks m b \<noteq> []" using 1(2) by auto
  then have m: "0 < m" and b: "b \<noteq> []" using spec_chunks_nonempty by blast+
  have eq: "spec_chunks m b = take m b # spec_chunks m (drop m b)"
    using m b by (rule spec_chunks_Cons)
  show ?case
  proof (cases k)
    case 0
    then show ?thesis using b by simp
  next
    case (Suc k')
    define rest where "rest = take k' (spec_chunks m (drop m b))"
    have k': "k' < length (spec_chunks m (drop m b))" using 1(2) by (simp add: eq Suc)
    have nz: "\<not> (m = 0 \<or> b = [])" using m b by simp
    have ih: "length (concat rest) = k' * m" "k' * m < length (drop m b)"
      "\<forall>c \<in> set rest. length c = m"
      unfolding rest_def using 1(1)[OF nz k'] by blast+
    have lt: "m < length b" using ih(2) by simp
    have tk: "length (take m b) = m" using lt by simp
    have tko: "take k (spec_chunks m b) = take m b # rest"
      by (simp add: Suc eq rest_def)
    have a: "length (concat (take k (spec_chunks m b))) = k * m"
      unfolding tko using ih(1) tk by (simp add: Suc)
    have "k' * m < length b - m" using ih(2) by simp
    then have "k' * m + m < length b" using lt by linarith
    then have bb: "k * m < length b" by (simp add: Suc)
    have c: "\<forall>c \<in> set (take k (spec_chunks m b)). length c = m"
      unfolding tko using ih(3) tk by (simp del: length_take)
    show ?thesis using a bb c by blast
  qed
qed

lemma Write_loop_Nil: "Write_loop env lc i [] n sent = Some (Inr (n, None), sent)"
  by (subst Write_loop.simps) simp

lemma Write_loop_step:
  assumes mtu: "lc_mtu lc = int m" and b: "b \<noteq> []"
  shows "Write_loop env lc i b n sent =
     (case waitN env lc i (int (length (take m b))) of
        Inl p \<Rightarrow> Some (Inl p, sent)
      | Inr (Some err) \<Rightarrow> Some (Inr (0, Some err), sent)
      | Inr None \<Rightarrow>
          (case conn_Write env lc i (take m b) of
             Inl p \<Rightarrow> Some (Inl p, sent)
           | Inr (w, Some err) \<Rightarrow> Some (Inr (0, Some err), sent @ [take m b])
           | Inr (w, None) \<Rightarrow>
               Write_loop env lc (i + 1) (drop m b) (wrap (n + w)) (sent @ [take m b])))"
proof -
  have s: "(if lc_mtu lc < int (length b) then take (nat (lc_mtu lc)) b else b) = take m b"
    by (simp add: mtu)
  have d: "drop (length (take m b)) b = drop m b"
    by (cases "m \<le> length b") (simp_all add: min_def)
  have c1: "0 < length b" using b by simp
  have c2: "\<not> (lc_mtu lc < int (length b) \<and> lc_mtu lc < 0)" by (simp add: mtu)
  show ?thesis
    apply (subst Write_loop.simps)
    apply (simp only: Let_def s d c1 c2 if_True if_False)
    done
qed

lemma Write_loop_all_ok:
  assumes "lc_mtu lc = int m" and "0 < m" and "0 \<le> n" and "n + int (length b) < 2 ^ 63"
    and "\<forall>j < length (spec_chunks m b).
           waitN env lc (i + j) (int (length (spec_chunks m b ! j))) = Inr None \<and>
           conn_Write env lc (i + j) (spec_chunks m b ! j) =
             Inr (int (length (spec_chunks m b ! j)), None)"
  shows "Write_loop env lc i b n sent =
           Some (Inr (n + int (length b), None), sent @ spec_chunks m b)"
  using assms(3-)
proof (induction "length b" arbitrary: b i n sent rule: less_induct)
  case less
  note mtu = assms(1) and m = assms(2)
  show ?case
  proof (cases "b = []")
    case True
    then show ?thesis by (simp add: Write_loop_Nil spec_chunks_Nil)
  next
    case False
    have eq: "spec_chunks m b = take m b # spec_chunks m (drop m b)"
      using m False by (rule spec_chunks_Cons)
    have "0 < length (spec_chunks m b)" by (simp add: eq)
    with less.prems(3) have
      "waitN env lc (i + 0) (int (length (spec_chunks m b ! 0))) = Inr None \<and>
       conn_Write env lc (i + 0) (spec_chunks m b ! 0) =
         Inr (int (length (spec_chunks m b ! 0)), None)"
      by blast
    then have h0: "waitN env lc i (int (length (take m b))) = Inr None"
      "conn_Write env lc i (take m b) = Inr (int (length (take m b)), None)"
      by (simp_all add: eq del: length_take)
    have hS: "\<forall>j < length (spec_chunks m (drop m b)).
           waitN env lc (Suc i + j) (int (length (spec_chunks m (drop m b) ! j))) = Inr None \<and>
           conn_Write env lc (Suc i + j) (spec_chunks m (drop m b) ! j) =
             Inr (int (length (spec_chunks m (drop m b) ! j)), None)"
    proof (intro allI impI)
      fix j assume "j < length (spec_chunks m (drop m b))"
      then have "Suc j < length (spec_chunks m b)" by (simp add: eq)
      with less.prems(3) have
        "waitN env lc (i + Suc j) (int (length (spec_chunks m b ! Suc j))) = Inr None \<and>
         conn_Write env lc (i + Suc j) (spec_chunks m b ! Suc j) =
           Inr (int (length (spec_chunks m b ! Suc j)), None)"
        by blast
      then show "waitN env lc (Suc i + j) (int (length (spec_chunks m (drop m b) ! j))) = Inr None \<and>
           conn_Write env lc (Suc i + j) (spec_chunks m (drop m b) ! j) =
             Inr (int (length (spec_chunks m (drop m b) ! j)), None)"
        by (simp add: eq)
    qed
    have lt: "length (drop m b) < length b" using m False by simp
    have sum: "int (length (take m b)) + int (length (drop m b)) = int (length b)"
      by (metis append_take_drop_id length_append of_nat_add)
    have n1: "0 \<le> n + int (length (take m b))" using less.prems(1) by linarith
    have n2: "n + int (length (take m b)) + int (length (drop m b)) < 2 ^ 63"
      using less.prems(2) sum by linarith
    have n3: "n + int (length (take m b)) < 2 ^ 63" using n2 by linarith
    have w: "wrap (n + int (length (take m b))) = n + int (length (take m b))"
      using n1 n3 by (intro wrap_id) linarith+
    have rec: "Write_loop env lc (Suc i) (drop m b) (n + int (length (take m b))) (sent @ [take m b]) =
        Some (Inr (n + int (length (take m b)) + int (length (drop m b)), None),
              (sent @ [take m b]) @ spec_chunks m (drop m b))"
      using lt n1 n2 hS by (rule less.hyps)
    have "Write_loop env lc i b n sent =
        Write_loop env lc (i + 1) (drop m b) (wrap (n + int (length (take m b)))) (sent @ [take m b])"
      by (simp only: Write_loop_step[OF mtu False] h0 sum.case option.case prod.case)
    also have "\<dots> = Write_loop env lc (Suc i) (drop m b) (n + int (length (take m b))) (sent @ [take m b])"
      by (simp only: w Suc_eq_plus1)
    also have "\<dots> = Some (Inr (n + int (length b), None), sent @ spec_chunks m b)"
      using sum by (simp only: rec eq) (simp add: add.assoc)
    finally show ?thesis .
  qed
qed

lemma Write_loop_wait_fails:
  assumes "lc_mtu lc = int m"
    and "k < length (spec_chunks m b)"
    and "\<forall>j < k.
           waitN env lc (i + j) (int (length (spec_chunks m b ! j))) = Inr None \<and>
           (\<exists>w. conn_Write env lc (i + j) (spec_chunks m b ! j) = Inr (w, None))"
    and "waitN env lc (i + k) (int (length (spec_chunks m b ! k))) = Inr (Some e)"
  shows "Write_loop env lc i b n sent =
           Some (Inr (0, Some e), sent @ take k (spec_chunks m b))"
  using assms(2-)
proof (induction k arbitrary: b i n sent)
  case 0
  note mtu = assms(1)
  have ne: "spec_chunks m b \<noteq> []" using 0(1) by auto
  then have m: "0 < m" and b: "b \<noteq> []" using spec_chunks_nonempty by blast+
  have eq: "spec_chunks m b = take m b # spec_chunks m (drop m b)"
    using m b by (rule spec_chunks_Cons)
  have h: "waitN env lc i (int (length (take m b))) = Inr (Some e)"
    using 0(3) by (simp add: eq del: length_take)
  show ?case
    by (simp only: Write_loop_step[OF mtu b] h sum.case option.case take_0 append_Nil2)
next
  case (Suc k)
  note mtu = assms(1)
  have ne: "spec_chunks m b \<noteq> []" using Suc.prems(1) by auto
  then have m: "0 < m" and b: "b \<noteq> []" using spec_chunks_nonempty by blast+
  have eq: "spec_chunks m b = take m b # spec_chunks m (drop m b)"
    using m b by (rule spec_chunks_Cons)
  have "0 < Suc k" by simp
  with Suc.prems(2) have
    "waitN env lc (i + 0) (int (length (spec_chunks m b ! 0))) = Inr None \<and>
     (\<exists>w. conn_Write env lc (i + 0) (spec_chunks m b ! 0) = Inr (w, None))"
    by blast
  then obtain w where h0:
    "waitN env lc i (int (length (take m b))) = Inr None"
    "conn_Write env lc i (take m b) = Inr (w, None)"
    by (auto simp add: eq simp del: length_take)
  have k: "k < length (spec_chunks m (drop m b))" using Suc.prems(1) by (simp add: eq)
  have hS: "\<forall>j < k.
           waitN env lc (Suc i + j) (int (length (spec_chunks m (drop m b) ! j))) = Inr None \<and>
           (\<exists>w. conn_Write env lc (Suc i + j) (spec_chunks m (drop m b) ! j) = Inr (w, None))"
  proof (intro allI impI)
    fix j assume "j < k"
    then have "Suc j < Suc k" by simp
    with Suc.prems(2) have
      "waitN env lc (i + Suc j) (int (length (spec_chunks m b ! Suc j))) = Inr None \<and>
       (\<exists>w. conn_Write env lc (i + Suc j) (spec_chunks m b ! Suc j) = Inr (w, None))"
      by blast
    then show "waitN env lc (Suc i + j) (int (length (spec_chunks m (drop m b) ! j))) = Inr None \<and>
           (\<exists>w. conn_Write env lc (Suc i + j) (spec_chunks m (drop m b) ! j) = Inr (w, None))"
      by (simp add: eq)
  qed
  have hk: "waitN env lc (Suc i + k) (int (length (spec_chunks m (drop m b) ! k))) = Inr (Some e)"
    using Suc.prems(3) by (simp add: eq)
  have rec: "Write_loop env lc (Suc i) (drop m b) (wrap (n + w)) (sent @ [take m b]) =
      Some (Inr (0, Some e), (sent @ [take m b]) @ take k (spec_chunks m (drop m b)))"
    using k hS hk by (rule Suc.IH)
  have "Write_loop env lc i b n sent =
        Write_loop env lc (i + 1) (drop m b) (wrap (n + w)) (sent @ [take m b])"
    by (simp only: Write_loop_step[OF mtu b] h0 sum.case option.case prod.case)
  also have "\<dots> = Some (Inr (0, Some e), (sent @ [take m b]) @ take k (spec_chunks m (drop m b)))"
    using rec by (simp only: Suc_eq_plus1)
  also have "(sent @ [take m b]) @ take k (spec_chunks m (drop m b)) = sent @ take (Suc k) (spec_chunks m b)"
    by (simp add: eq)
  finally show ?case .
qed

lemma spec_chunks_index:
  "0 < m \<Longrightarrow> k * m < length b \<Longrightarrow> k < length (spec_chunks m b)"
proof (induction k arbitrary: b)
  case 0
  then have "b \<noteq> []" by auto
  then show ?case using 0(1) by (simp add: spec_chunks_Cons[OF 0(1)])
next
  case (Suc k)
  have b: "b \<noteq> []" using Suc.prems(2) by auto
  have eq: "spec_chunks m b = take m b # spec_chunks m (drop m b)"
    using Suc.prems(1) b by (rule spec_chunks_Cons)
  have "k * m + m < length b" using Suc.prems(2) by (simp add: add.commute)
  then have "k * m < length (drop m b)" by simp
  then have "k < length (spec_chunks m (drop m b))" using Suc.IH Suc.prems(1) by blast
  then show ?case by (simp add: eq)
qed

lemma spec_chunks_bound:
  "j < length (spec_chunks m b) \<Longrightarrow> j * m < length b"
  using spec_chunks_prefix_length by blast

lemma take_spec_chunks:
  assumes "k \<le> length (spec_chunks m b)"
  shows "take k (spec_chunks m b) = map (\<lambda>j. take m (drop (j * m) b)) [0..<k]"
proof (rule nth_equalityI)
  show "length (take k (spec_chunks m b)) = length (map (\<lambda>j. take m (drop (j * m) b)) [0..<k])"
    using assms by simp
next
  fix i assume "i < length (take k (spec_chunks m b))"
  then have i: "i < k" "i < length (spec_chunks m b)" by simp_all
  then show "take k (spec_chunks m b) ! i = map (\<lambda>j. take m (drop (j * m) b)) [0..<k] ! i"
    by (simp add: spec_chunks_nth)
qed

section \<open>Accept when the raw accept fails\<close>

text \<open>
  C1. The claim: when the raw accept returns an error, Accept propagates it and leaves
  the listener untouched. The code has no error check: on a fresh listener whose raw
  accept answers \<open>(nil, err)\<close>, Accept does return \<open>err\<close>, but it has also taken identity
  0, moved the counter to 1, registered a connection around the nil raw connection and
  created a limiter for it.
\<close>

theorem Accept_raw_error_registers:
  "Accept (None, Some (Error ''accept failed'')) (NewWithListener (Some 0)) =
     Inr ((LimitedConnVal \<lparr>lc_id = 0, lc_conn = None, lc_globalLimiter = None,
                            lc_connLimiter = Some 0, lc_mtu = 1024\<rparr>,
           Some (Error ''accept failed'')),
          \<lparr>ll = \<lparr>ll_n_conns = 1, ll_listener = Some 0, ll_globalLimiter = None,
                  ll_connLimit = 0, ll_mtu = 1024,
                  ll_conns = [\<lparr>lc_id = 0, lc_conn = None, lc_globalLimiter = None,
                               lc_connLimiter = Some 0, lc_mtu = 1024\<rparr>]\<rparr>,
           heap = [\<lparr>limit = Limit 0, burst = 1024\<rparr>], closed = []\<rparr>)"
  by (simp add: Accept_def NewWithListener_def NewLimiter_def defaultMTU_def wrap_def Let_def)

section \<open>The connection counter and the identities\<close>

text \<open>
  C2. The claim: over any sequence of \<^verbatim>\<open>Accept\<close> and \<^verbatim>\<open>CloseConnection\<close> calls the
  connection counter never decreases and no two accepted connections get the same
  identity. \<^verbatim>\<open>Accept\<close> takes the identity from the counter and \<^verbatim>\<open>CloseConnection\<close>
  decrements the counter, so identities are reused. On a new listener: two accepts
  (raw connections 10 and 11, identities 0 and 1), then the close of the first
  connection moves the counter from 2 to 1, and a third accept (raw connection 12) gets
  identity 1 again: the registry holds two connections with identity 1. Closing this
  third connection then closes raw connection 12 but evicts the first entry with
  identity 1, the live connection on raw connection 11, and leaves the closed one
  registered.
\<close>

theorem CloseConnection_reuses_identity:
  "\<not> isl (run [OpAccept (Some 10) None, OpAccept (Some 11) None,
                OpCloseConnection (LimitedConnVal \<lparr>lc_id = 0, lc_conn = Some 10,
                   lc_globalLimiter = None, lc_connLimiter = Some 0, lc_mtu = 1024\<rparr>),
                OpAccept (Some 12) None] (NewWithListener (Some 0))) \<and>
   ll_n_conns (ll (projr (run [OpAccept (Some 10) None, OpAccept (Some 11) None,
                OpCloseConnection (LimitedConnVal \<lparr>lc_id = 0, lc_conn = Some 10,
                   lc_globalLimiter = None, lc_connLimiter = Some 0, lc_mtu = 1024\<rparr>)]
                (NewWithListener (Some 0)))))
     < ll_n_conns (ll (projr (run [OpAccept (Some 10) None, OpAccept (Some 11) None]
                (NewWithListener (Some 0))))) \<and>
   \<not> distinct (map lc_id (ll_conns (ll (projr
       (run [OpAccept (Some 10) None, OpAccept (Some 11) None,
             OpCloseConnection (LimitedConnVal \<lparr>lc_id = 0, lc_conn = Some 10,
                lc_globalLimiter = None, lc_connLimiter = Some 0, lc_mtu = 1024\<rparr>),
             OpAccept (Some 12) None] (NewWithListener (Some 0))))))) \<and>
   run [OpAccept (Some 10) None, OpAccept (Some 11) None,
        OpCloseConnection (LimitedConnVal \<lparr>lc_id = 0, lc_conn = Some 10,
           lc_globalLimiter = None, lc_connLimiter = Some 0, lc_mtu = 1024\<rparr>),
        OpAccept (Some 12) None] (NewWithListener (Some 0)) =
     Inr \<lparr>ll = \<lparr>ll_n_conns = 2, ll_listener = Some 0, ll_globalLimiter = None,
                 ll_connLimit = 0, ll_mtu = 1024,
                 ll_conns = [\<lparr>lc_id = 1, lc_conn = Some 11, lc_globalLimiter = None,
                              lc_connLimiter = Some 1, lc_mtu = 1024\<rparr>,
                             \<lparr>lc_id = 1, lc_conn = Some 12, lc_globalLimiter = None,
                              lc_connLimiter = Some 2, lc_mtu = 1024\<rparr>]\<rparr>,
          heap = [\<lparr>limit = Limit 0, burst = 1024\<rparr>, \<lparr>limit = Limit 0, burst = 1024\<rparr>,
                  \<lparr>limit = Limit 0, burst = 1024\<rparr>],
          closed = [10]\<rparr> \<and>
   run [OpAccept (Some 10) None, OpAccept (Some 11) None,
        OpCloseConnection (LimitedConnVal \<lparr>lc_id = 0, lc_conn = Some 10,
           lc_globalLimiter = None, lc_connLimiter = Some 0, lc_mtu = 1024\<rparr>),
        OpAccept (Some 12) None,
        OpCloseConnection (LimitedConnVal \<lparr>lc_id = 1, lc_conn = Some 12,
           lc_globalLimiter = None, lc_connLimiter = Some 2, lc_mtu = 1024\<rparr>)]
       (NewWithListener (Some 0)) =
     Inr \<lparr>ll = \<lparr>ll_n_conns = 1, ll_listener = Some 0, ll_globalLimiter = None,
                 ll_connLimit = 0, ll_mtu = 1024,
                 ll_conns = [\<lparr>lc_id = 1, lc_conn = Some 12, lc_globalLimiter = None,
                              lc_connLimiter = Some 2, lc_mtu = 1024\<rparr>]\<rparr>,
          heap = [\<lparr>limit = Limit 0, burst = 1024\<rparr>, \<lparr>limit = Limit 0, burst = 1024\<rparr>,
                  \<lparr>limit = Limit 0, burst = 1024\<rparr>],
          closed = [10, 12]\<rparr>"
  by (simp add: Accept_def CloseConnection_def NewWithListener_def NewLimiter_def
        defaultMTU_def wrap_def Let_def evict_def)

section \<open>The shared global limiter\<close>

text \<open>
  C3. The claim: every registered connection refers to the listener's current global
  limiter, also a connection accepted before the first \<^verbatim>\<open>SetLimits\<close>. The global
  limiter is created by the first \<^verbatim>\<open>SetLimits\<close>; a connection accepted before it has
  copied the nil pointer, and \<^verbatim>\<open>SetLimits\<close> only touches the per-connection limiters
  of the registry. After \<^verbatim>\<open>Accept\<close> and \<^verbatim>\<open>SetLimits(100, 50)\<close> on a new listener the
  listener's global limiter is the object at address 1 and the registered connection's
  global limiter is still nil.
\<close>

theorem Accept_before_SetLimits_nil_global:
  "run [OpAccept (Some 7) None, OpSetLimits 100 50] (NewWithListener (Some 0)) =
     Inr \<lparr>ll = \<lparr>ll_n_conns = 1, ll_listener = Some 0, ll_globalLimiter = Some 1,
                 ll_connLimit = 50, ll_mtu = 1024,
                 ll_conns = [\<lparr>lc_id = 0, lc_conn = Some 7, lc_globalLimiter = None,
                              lc_connLimiter = Some 0, lc_mtu = 1024\<rparr>]\<rparr>,
          heap = [\<lparr>limit = Limit 50, burst = 1024\<rparr>, \<lparr>limit = Limit 100, burst = 1024\<rparr>],
          closed = []\<rparr>"
  by (simp add: Accept_def SetLimits_def SetLimit_def Limiter_SetLimit_def NewWithListener_def
        NewLimiter_def defaultMTU_def wrap_def Let_def)

section \<open>SetLimits\<close>

text \<open>
  C7. In a listener state with valid pointers, \<^verbatim>\<open>SetLimits(g, c)\<close> creates the global
  limiter with rate \<open>g\<close> and the chunk size as burst when there is none, and otherwise
  sets the rate of the existing one and leaves its burst; it records \<open>c\<close> as the
  per-connection limit; it sets the rate of the per-connection limiter of every
  registered connection to \<open>c\<close> and leaves its burst; and it changes nothing else: the
  registry, the counter, the raw listener, the chunk size, the closed connections and
  every other limiter object stay as they are. The model of \<^verbatim>\<open>SetLimits\<close> is a total
  function without a panic branch: the call cannot fail.
\<close>

theorem SetLimits_effect:
  assumes "wf_State st"
  shows "(case ll_globalLimiter (ll st) of
            None \<Rightarrow>
              ll_globalLimiter (ll (SetLimits g c st)) = Some (length (heap st)) \<and>
              length (heap (SetLimits g c st)) = Suc (length (heap st)) \<and>
              heap (SetLimits g c st) ! length (heap st) =
                \<lparr>limit = Limit g, burst = ll_mtu (ll st)\<rparr>
          | Some a \<Rightarrow>
              ll_globalLimiter (ll (SetLimits g c st)) = Some a \<and>
              length (heap (SetLimits g c st)) = length (heap st) \<and>
              heap (SetLimits g c st) ! a = (heap st ! a)\<lparr>limit := Limit g\<rparr>) \<and>
         ll_connLimit (ll (SetLimits g c st)) = c \<and>
         (\<forall>lc \<in> set (ll_conns (ll (SetLimits g c st))).
            \<exists>a. lc_connLimiter lc = Some a \<and> a < length (heap st) \<and>
                heap (SetLimits g c st) ! a = (heap st ! a)\<lparr>limit := Limit c\<rparr>) \<and>
         ll_conns (ll (SetLimits g c st)) = ll_conns (ll st) \<and>
         ll_n_conns (ll (SetLimits g c st)) = ll_n_conns (ll st) \<and>
         ll_listener (ll (SetLimits g c st)) = ll_listener (ll st) \<and>
         ll_mtu (ll (SetLimits g c st)) = ll_mtu (ll st) \<and>
         closed (SetLimits g c st) = closed st \<and>
         (\<forall>a < length (heap st).
            Some a \<noteq> ll_globalLimiter (ll st) \<longrightarrow>
            Some a \<notin> lc_connLimiter ` set (ll_conns (ll st)) \<longrightarrow>
            heap (SetLimits g c st) ! a = heap st ! a)"
proof -
  from SetLimits_wf_form[OF assms, of g c] obtain ga h3 where f:
    "SetLimits g c st =
             st\<lparr>ll := (ll st)\<lparr>ll_globalLimiter := Some ga, ll_connLimit := c\<rparr>, heap := h3\<rparr>"
    "(case ll_globalLimiter (ll st) of
              None \<Rightarrow> ga = length (heap st) \<and> length h3 = Suc (length (heap st)) \<and>
                        h3 ! ga = \<lparr>limit = Limit g, burst = ll_mtu (ll st)\<rparr>
            | Some a \<Rightarrow> ga = a \<and> length h3 = length (heap st) \<and>
                        h3 ! ga = (heap st ! a)\<lparr>limit := Limit g\<rparr>)"
    "\<forall>x < length (heap st). x \<noteq> ga \<longrightarrow>
              h3 ! x = (if Some x \<in> lc_connLimiter ` set (ll_conns (ll st))
                        then (heap st ! x)\<lparr>limit := Limit c\<rparr> else heap st ! x)"
    by blast
  have conn_addr: "lc \<in> set (ll_conns (ll st)) \<Longrightarrow>
      \<exists>a. lc_connLimiter lc = Some a \<and> a < length (heap st) \<and> a \<noteq> ga" for lc
    using assms f(2) by (fastforce simp: wf_State_def split: option.splits)
  have g_part: "(case ll_globalLimiter (ll st) of
            None \<Rightarrow>
              ll_globalLimiter (ll (SetLimits g c st)) = Some (length (heap st)) \<and>
              length (heap (SetLimits g c st)) = Suc (length (heap st)) \<and>
              heap (SetLimits g c st) ! length (heap st) =
                \<lparr>limit = Limit g, burst = ll_mtu (ll st)\<rparr>
          | Some a \<Rightarrow>
              ll_globalLimiter (ll (SetLimits g c st)) = Some a \<and>
              length (heap (SetLimits g c st)) = length (heap st) \<and>
              heap (SetLimits g c st) ! a = (heap st ! a)\<lparr>limit := Limit g\<rparr>)"
    using f(2) unfolding f(1) by (auto split: option.splits)
  have c_part: "\<forall>lc \<in> set (ll_conns (ll (SetLimits g c st))).
            \<exists>a. lc_connLimiter lc = Some a \<and> a < length (heap st) \<and>
                heap (SetLimits g c st) ! a = (heap st ! a)\<lparr>limit := Limit c\<rparr>"
  proof
    fix lc assume "lc \<in> set (ll_conns (ll (SetLimits g c st)))"
    then have lc: "lc \<in> set (ll_conns (ll st))" by (simp add: f(1))
    from conn_addr[OF lc] obtain a where a: "lc_connLimiter lc = Some a"
      "a < length (heap st)" "a \<noteq> ga" by blast
    have "Some a \<in> lc_connLimiter ` set (ll_conns (ll st))" using lc a(1) by force
    then have "h3 ! a = (heap st ! a)\<lparr>limit := Limit c\<rparr>" using f(3) a(2,3) by simp
    then show "\<exists>a. lc_connLimiter lc = Some a \<and> a < length (heap st) \<and>
                heap (SetLimits g c st) ! a = (heap st ! a)\<lparr>limit := Limit c\<rparr>"
      using a by (simp add: f(1))
  qed
  have o_part: "\<forall>a < length (heap st).
            Some a \<noteq> ll_globalLimiter (ll st) \<longrightarrow>
            Some a \<notin> lc_connLimiter ` set (ll_conns (ll st)) \<longrightarrow>
            heap (SetLimits g c st) ! a = heap st ! a"
  proof (intro allI impI)
    fix a assume a: "a < length (heap st)" "Some a \<noteq> ll_globalLimiter (ll st)"
      "Some a \<notin> lc_connLimiter ` set (ll_conns (ll st))"
    have "a \<noteq> ga" using a(1,2) f(2) by (auto split: option.splits)
    then have "h3 ! a = heap st ! a" using f(3) a(1,3) by simp
    then show "heap (SetLimits g c st) ! a = heap st ! a" by (simp add: f(1))
  qed
  show ?thesis
    using g_part c_part o_part by (simp add: f(1))
qed

text \<open>An instance: \<^verbatim>\<open>SetLimits(200, 80)\<close> on the example state.\<close>

theorem SetLimits_effect_witness:
  "wf_State ex_State \<and>
   ll_globalLimiter (ll (SetLimits 200 80 ex_State)) = Some 0 \<and>
   length (heap (SetLimits 200 80 ex_State)) = 2 \<and>
   heap (SetLimits 200 80 ex_State) ! 0 = \<lparr>limit = Limit 200, burst = 1024\<rparr> \<and>
   ll_connLimit (ll (SetLimits 200 80 ex_State)) = 80 \<and>
   ll_conns (ll (SetLimits 200 80 ex_State)) = ll_conns (ll ex_State)"
proof -
  have h: "wf_State ex_State" by (simp add: wf_State_def ex_State_def)
  have g: "ll_globalLimiter (ll ex_State) = Some 0" "heap ex_State ! 0 = \<lparr>limit = Limit 100, burst = 1024\<rparr>"
    "length (heap ex_State) = 2"
    by (simp_all add: ex_State_def)
  from SetLimits_effect[OF h, of 200 80] show ?thesis
    using h by (simp add: g)
qed

text \<open>
  C9. \<^verbatim>\<open>SetLimits\<close> is idempotent: in every listener state, calling
  \<^verbatim>\<open>SetLimits(g, c)\<close> twice leaves the whole state (listener, registry and every
  limiter object) exactly as calling it once does.
\<close>

theorem SetLimits_idempotent:
  "SetLimits g c (SetLimits g c st) = SetLimits g c st"
proof -
  define ga where "ga = (case ll_globalLimiter (ll st) of None \<Rightarrow> length (heap st) | Some a \<Rightarrow> a)"
  define h1 where "h1 = (case ll_globalLimiter (ll st) of
       None \<Rightarrow> heap st @ [NewLimiter (Limit g) (ll_mtu (ll st))] | Some a \<Rightarrow> heap st)"
  define h2 where "h2 = Limiter_SetLimit ga (Limit g) h1"
  obtain cs1 h3 where p: "SetLimit_conns c (ll_conns (ll st)) h2 = (cs1, h3)"
    by (cases "SetLimit_conns c (ll_conns (ll st)) h2")
  define st1 where "st1 = SetLimits g c st"
  have st1: "st1 = st\<lparr>ll := (ll st)\<lparr>ll_globalLimiter := Some ga, ll_connLimit := c,
                                      ll_conns := cs1\<rparr>, heap := h3\<rparr>"
    using p by (simp add: st1_def SetLimits_def Let_def ga_def h1_def h2_def split: option.splits)
  from SetLimit_conns_pass[OF p] have q:
    "\<forall>lc \<in> set cs1. lc_connLimiter lc \<noteq> None"
    "length h2 \<le> length h3"
    "\<forall>x < length h3. Some x \<in> lc_connLimiter ` set cs1 \<longrightarrow> limit (h3 ! x) = Limit c"
    "\<forall>x < length h2. Some x \<notin> lc_connLimiter ` set cs1 \<longrightarrow> h3 ! x = h2 ! x"
    "\<forall>x. length h2 \<le> x \<longrightarrow> x < length h3 \<longrightarrow> Some x \<in> lc_connLimiter ` set cs1"
    by blast+
  define h2' where "h2' = Limiter_SetLimit ga (Limit g) h3"
  have len2': "length h2' = length h3" by (simp add: h2'_def Limiter_SetLimit_length)
  from SetLimit_conns_some[OF q(1), of c h2'] obtain h3' where p':
    "SetLimit_conns c cs1 h2' = (cs1, h3')" "length h3' = length h2'"
    "\<forall>x < length h2'. h3' ! x =
        (if Some x \<in> lc_connLimiter ` set cs1 then (h2' ! x)\<lparr>limit := Limit c\<rparr> else h2' ! x)"
    by blast
  have st2: "SetLimits g c st1 = st1\<lparr>heap := h3'\<rparr>"
    using p'(1) by (simp add: SetLimits_def Let_def st1 h2'_def)
  have "h3' = h3"
  proof (rule nth_equalityI)
    show "length h3' = length h3" by (simp add: p'(2) len2')
  next
    fix x assume "x < length h3'"
    then have x: "x < length h3" by (simp add: p'(2) len2')
    have h2'x: "h2' ! x = (if x = ga then (h3 ! x)\<lparr>limit := Limit g\<rparr> else h3 ! x)"
      unfolding h2'_def using x by (rule Limiter_SetLimit_nth)
    show "h3' ! x = h3 ! x"
    proof (cases "Some x \<in> lc_connLimiter ` set cs1")
      case True
      then have "limit (h3 ! x) = Limit c" using q(3) x by blast
      moreover have "h3' ! x = (h2' ! x)\<lparr>limit := Limit c\<rparr>" using p'(3) x len2' True by simp
      ultimately show ?thesis using h2'x by (cases "x = ga") simp_all
    next
      case False
      then have e: "h3' ! x = h2' ! x" using p'(3) x len2' by simp
      show ?thesis
      proof (cases "x = ga")
        case True
        have x2: "x < length h2" using q(5) False x by (meson not_le)
        then have "h3 ! x = h2 ! x" using q(4) False by blast
        moreover have "x < length h1" using x2 by (simp add: h2_def Limiter_SetLimit_length)
        then have "limit (h2 ! x) = Limit g"
          unfolding h2_def using True by (simp add: Limiter_SetLimit_nth)
        ultimately have "limit (h3 ! x) = Limit g" by simp
        then show ?thesis using e h2'x by simp
      next
        case False
        then show ?thesis using e h2'x by simp
      qed
    qed
  qed
  then have "SetLimits g c st1 = st1" using st2 by (simp add: st1)
  then show ?thesis by (simp add: st1_def)
qed

text \<open>An instance: \<^verbatim>\<open>SetLimits(200, 80)\<close> twice on the example state.\<close>

theorem SetLimits_idempotent_witness:
  "SetLimits 200 80 (SetLimits 200 80 ex_State) = SetLimits 200 80 ex_State"
  by (rule SetLimits_idempotent)

section \<open>CloseConnection\<close>



section \<open>Write\<close>

text \<open>
  C4. With a positive chunk size \<open>m\<close>, when the joint wait and the raw write of the
  first \<open>k\<close> chunks succeed and the joint wait for chunk \<open>k\<close> fails with \<open>e\<close>,
  \<^verbatim>\<open>Write\<close> returns the count 0 and the error \<open>e\<close>, although the first \<open>k\<close> chunks
  have been handed to the raw connection: the raw connection has received exactly
  these \<open>k\<close> chunks, each once and in order, and nothing after them.
\<close>

theorem Write_limiter_wait_failure:
  assumes "lc_mtu lc = int m" and "0 < m" and "k * m < length b"
    and "\<forall>j < k. waitN env lc j (int (length (take m (drop (j * m) b)))) = Inr None \<and>
                 (\<exists>w. conn_Write env lc j (take m (drop (j * m) b)) = Inr (w, None))"
    and "waitN env lc k (int (length (take m (drop (k * m) b)))) = Inr (Some e)"
  shows "Write env lc b =
           Some (Inr (0, Some e), map (\<lambda>j. take m (drop (j * m) b)) [0..<k])"
proof -
  have k: "k < length (spec_chunks m b)" using assms(2,3) by (rule spec_chunks_index)
  have h: "\<forall>j < k. waitN env lc (0 + j) (int (length (spec_chunks m b ! j))) = Inr None \<and>
                 (\<exists>w. conn_Write env lc (0 + j) (spec_chunks m b ! j) = Inr (w, None))"
    using assms(4) k by (simp add: spec_chunks_nth)
  have hk: "waitN env lc (0 + k) (int (length (spec_chunks m b ! k))) = Inr (Some e)"
    using assms(5) k by (simp add: spec_chunks_nth)
  have "Write_loop env lc 0 b 0 [] = Some (Inr (0, Some e), [] @ take k (spec_chunks m b))"
    using assms(1) k h hk by (rule Write_loop_wait_fails)
  then show ?thesis using k by (simp add: Write_def take_spec_chunks)
qed

text \<open>An instance: five bytes, chunk size 2, the third joint wait fails.\<close>

theorem Write_limiter_wait_failure_witness:
  "Write ex_Env ex_conn [1, 2, 3, 4, 5] =
     Some (Inr (0, Some (Error ''canceled'')), [[1, 2], [3, 4]])"
proof -
  have a: "lc_mtu ex_conn = int 2" by (simp add: ex_conn_def)
  have b: "(0::nat) < 2" by simp
  have c: "2 * 2 < length [1, 2, 3, 4, 5 :: byte]" by simp
  have d: "\<forall>j < 2. waitN ex_Env ex_conn j (int (length (take 2 (drop (j * 2) [1, 2, 3, 4, 5 :: byte])))) = Inr None \<and>
                 (\<exists>w. conn_Write ex_Env ex_conn j (take 2 (drop (j * 2) [1, 2, 3, 4, 5 :: byte])) = Inr (w, None))"
    by (simp add: waitN_def conn_Write_def ex_Env_def ex_conn_def done_chan_def)
  have e: "waitN ex_Env ex_conn 2 (int (length (take 2 (drop (2 * 2) [1, 2, 3, 4, 5 :: byte])))) =
             Inr (Some (Error ''canceled''))"
    by (simp add: waitN_def ex_Env_def ex_conn_def done_chan_def)
  have f: "map (\<lambda>j. take 2 (drop (j * 2) [1, 2, 3, 4, 5 :: byte])) [0..<2] = [[1, 2], [3, 4]]"
    by (simp add: upt_conv_Cons)
  from Write_limiter_wait_failure[OF a b c d e] show ?thesis by (simp only: f)
qed

text \<open>
  C5. With a positive chunk size \<open>m\<close> and data \<open>b\<close> (of a length an \<^verbatim>\<open>int\<close> can hold),
  when every joint wait succeeds and every raw write succeeds with the length of its
  chunk, \<^verbatim>\<open>Write\<close> returns the length of \<open>b\<close> and a nil error, and the raw connection
  has received the specification's chunking of \<open>b\<close>: the pieces concatenate to \<open>b\<close>,
  each is non-empty and at most \<open>m\<close> long, every piece but the last is exactly \<open>m\<close> long,
  and piece \<open>i\<close> is the \<open>m\<close> bytes of \<open>b\<close> from offset \<open>i * m\<close>.
\<close>

theorem Write_all_ok:
  assumes "lc_mtu lc = int m" and "0 < m" and "int (length b) < 2 ^ 63"
    and "\<forall>j. j * m < length b \<longrightarrow>
           waitN env lc j (int (length (take m (drop (j * m) b)))) = Inr None \<and>
           conn_Write env lc j (take m (drop (j * m) b)) =
             Inr (int (length (take m (drop (j * m) b))), None)"
  shows "\<exists>sent. Write env lc b = Some (Inr (int (length b), None), sent) \<and>
           sent = spec_chunks m b \<and>
           concat sent = b \<and>
           (\<forall>c \<in> set sent. 0 < length c \<and> length c \<le> m) \<and>
           (\<forall>i. Suc i < length sent \<longrightarrow> length (sent ! i) = m) \<and>
           (\<forall>i < length sent. sent ! i = take m (drop (i * m) b))"
proof -
  have h: "\<forall>j < length (spec_chunks m b).
           waitN env lc (0 + j) (int (length (spec_chunks m b ! j))) = Inr None \<and>
           conn_Write env lc (0 + j) (spec_chunks m b ! j) =
             Inr (int (length (spec_chunks m b ! j)), None)"
  proof (intro allI impI)
    fix j assume j: "j < length (spec_chunks m b)"
    then have "j * m < length b" by (rule spec_chunks_bound)
    with assms(4) have "waitN env lc j (int (length (take m (drop (j * m) b)))) = Inr None \<and>
           conn_Write env lc j (take m (drop (j * m) b)) =
             Inr (int (length (take m (drop (j * m) b))), None)" by blast
    then show "waitN env lc (0 + j) (int (length (spec_chunks m b ! j))) = Inr None \<and>
           conn_Write env lc (0 + j) (spec_chunks m b ! j) =
             Inr (int (length (spec_chunks m b ! j)), None)"
      by (simp only: spec_chunks_nth[OF j] add_0)
  qed
  have z: "(0::int) \<le> 0" by simp
  have n: "0 + int (length b) < 2 ^ 63" using assms(3) by simp
  have "Write_loop env lc 0 b 0 [] =
          Some (Inr (0 + int (length b), None), [] @ spec_chunks m b)"
    using assms(1,2) z n h by (rule Write_loop_all_ok)
  then have w: "Write env lc b = Some (Inr (int (length b), None), spec_chunks m b)"
    by (simp add: Write_def)
  have "concat (spec_chunks m b) = b" using assms(2) by (rule concat_spec_chunks)
  moreover have "\<forall>c \<in> set (spec_chunks m b). 0 < length c \<and> length c \<le> m"
    using spec_chunks_length_bounds by blast
  moreover have "\<forall>i. Suc i < length (spec_chunks m b) \<longrightarrow> length (spec_chunks m b ! i) = m"
    using spec_chunks_full by blast
  moreover have "\<forall>i < length (spec_chunks m b). spec_chunks m b ! i = take m (drop (i * m) b)"
    using spec_chunks_nth by blast
  ultimately show ?thesis using w by blast
qed

text \<open>An instance: five bytes, chunk size 2, collaborators that always succeed.\<close>

theorem Write_all_ok_witness:
  "\<exists>sent. Write ex_Env_ok ex_conn [1, 2, 3, 4, 5] = Some (Inr (5, None), sent) \<and>
           sent = spec_chunks 2 [1, 2, 3, 4, 5] \<and>
           concat sent = [1, 2, 3, 4, 5]"
proof -
  have a: "lc_mtu ex_conn = int 2" by (simp add: ex_conn_def)
  have b: "(0::nat) < 2" by simp
  have c: "int (length [1, 2, 3, 4, 5 :: byte]) < 2 ^ 63" by simp
  have d: "\<forall>j. j * 2 < length [1, 2, 3, 4, 5 :: byte] \<longrightarrow>
           waitN ex_Env_ok ex_conn j (int (length (take 2 (drop (j * 2) [1, 2, 3, 4, 5 :: byte])))) = Inr None \<and>
           conn_Write ex_Env_ok ex_conn j (take 2 (drop (j * 2) [1, 2, 3, 4, 5 :: byte])) =
             Inr (int (length (take 2 (drop (j * 2) [1, 2, 3, 4, 5 :: byte]))), None)"
    by (simp add: waitN_def conn_Write_def ex_Env_ok_def ex_conn_def done_chan_def)
  from Write_all_ok[OF a b c d] show ?thesis by auto
qed

text \<open>
  C6. When \<^verbatim>\<open>Write\<close> is aborted by the failure of the joint wait for chunk \<open>k\<close>, the
  raw connection has received only whole chunks: every piece handed to it is exactly
  \<open>m\<close> bytes long, and the number of bytes handed to it is \<open>k * m\<close>, a multiple of the
  chunk size that is less than the length of the data.
\<close>

theorem Write_aborted_whole_chunks:
  assumes "lc_mtu lc = int m" and "0 < m" and "k * m < length b"
    and "\<forall>j < k. waitN env lc j (int (length (take m (drop (j * m) b)))) = Inr None \<and>
                 (\<exists>w. conn_Write env lc j (take m (drop (j * m) b)) = Inr (w, None))"
    and "waitN env lc k (int (length (take m (drop (k * m) b)))) = Inr (Some e)"
  shows "\<exists>r sent. Write env lc b = Some (r, sent) \<and>
           (\<forall>c \<in> set sent. length c = m) \<and>
           length (concat sent) = k * m \<and>
           m dvd length (concat sent) \<and>
           length (concat sent) < length b"
proof -
  have k: "k < length (spec_chunks m b)" using assms(2,3) by (rule spec_chunks_index)
  have h: "\<forall>j < k. waitN env lc (0 + j) (int (length (spec_chunks m b ! j))) = Inr None \<and>
                 (\<exists>w. conn_Write env lc (0 + j) (spec_chunks m b ! j) = Inr (w, None))"
    using assms(4) k by (simp add: spec_chunks_nth)
  have hk: "waitN env lc (0 + k) (int (length (spec_chunks m b ! k))) = Inr (Some e)"
    using assms(5) k by (simp add: spec_chunks_nth)
  have "Write_loop env lc 0 b 0 [] = Some (Inr (0, Some e), [] @ take k (spec_chunks m b))"
    using assms(1) k h hk by (rule Write_loop_wait_fails)
  then have w: "Write env lc b = Some (Inr (0, Some e), take k (spec_chunks m b))"
    by (simp add: Write_def)
  from spec_chunks_prefix_length[OF k]
  have p: "length (concat (take k (spec_chunks m b))) = k * m"
    "\<forall>c \<in> set (take k (spec_chunks m b)). length c = m"
    by blast+
  have "m dvd length (concat (take k (spec_chunks m b)))" by (simp only: p(1)) simp
  moreover have "length (concat (take k (spec_chunks m b))) < length b"
    using assms(3) by (simp only: p(1))
  ultimately show ?thesis using w p by blast
qed

text \<open>An instance: five bytes, chunk size 2, four bytes sent before the abort.\<close>

theorem Write_aborted_whole_chunks_witness:
  "\<exists>r sent. Write ex_Env ex_conn [1, 2, 3, 4, 5] = Some (r, sent) \<and>
           (\<forall>c \<in> set sent. length c = 2) \<and>
           length (concat sent) = 2 * 2 \<and>
           2 dvd length (concat sent) \<and>
           length (concat sent) < length [1, 2, 3, 4, 5 :: byte]"
proof -
  have a: "lc_mtu ex_conn = int 2" by (simp add: ex_conn_def)
  have b: "(0::nat) < 2" by simp
  have c: "2 * 2 < length [1, 2, 3, 4, 5 :: byte]" by simp
  have d: "\<forall>j < 2. waitN ex_Env ex_conn j (int (length (take 2 (drop (j * 2) [1, 2, 3, 4, 5 :: byte])))) = Inr None \<and>
                 (\<exists>w. conn_Write ex_Env ex_conn j (take 2 (drop (j * 2) [1, 2, 3, 4, 5 :: byte])) = Inr (w, None))"
    by (simp add: waitN_def conn_Write_def ex_Env_def ex_conn_def done_chan_def)
  have e: "waitN ex_Env ex_conn 2 (int (length (take 2 (drop (2 * 2) [1, 2, 3, 4, 5 :: byte])))) =
             Inr (Some (Error ''canceled''))"
    by (simp add: waitN_def ex_Env_def ex_conn_def done_chan_def)
  from Write_aborted_whole_chunks[OF a b c d e] show ?thesis .
qed

section \<open>The joint wait\<close>

text \<open>
  C8. For a connection with both limiters, \<^verbatim>\<open>waitN\<close> returns nil exactly when the wait
  on the per-connection limiter and the wait on the global limiter both return nil,
  whatever the order of the two answers in the channel; when one of them fails,
  \<^verbatim>\<open>waitN\<close> returns the failure of one of the two limiters; and in whatever
  iteration of the loop of \<^verbatim>\<open>Write\<close> the joint wait for the next chunk fails, \<^verbatim>\<open>Write\<close>
  returns that failure and the chunks handed to the raw connection are the ones handed
  to it before: the chunk whose wait failed is not transmitted.
\<close>

theorem waitN_joint:
  assumes "lc_connLimiter lc \<noteq> None" and "lc_globalLimiter lc \<noteq> None"
  shows "(waitN env lc i n = Inr None \<longleftrightarrow>
            connWaitN env i n = None \<and> globalWaitN env i n = None) \<and>
         (connWaitN env i n \<noteq> None \<or> globalWaitN env i n \<noteq> None \<longrightarrow>
            (\<exists>e. waitN env lc i n = Inr (Some e) \<and>
                 (connWaitN env i n = Some e \<or> globalWaitN env i n = Some e))) \<and>
         (\<forall>b k sent e. b \<noteq> [] \<longrightarrow> 0 \<le> lc_mtu lc \<longrightarrow>
            n = int (length (take (nat (lc_mtu lc)) b)) \<longrightarrow>
            waitN env lc i n = Inr (Some e) \<longrightarrow>
            Write_loop env lc i b k sent = Some (Inr (0, Some e), sent))"
proof -
  from assms obtain c g where cg: "lc_connLimiter lc = Some c" "lc_globalLimiter lc = Some g"
    by auto
  have w: "waitN env lc i n =
      Inr (range_done (done_chan (connFirst env i) (connWaitN env i n) (globalWaitN env i n)))"
    by (simp add: waitN_def cg)
  have p1: "waitN env lc i n = Inr None \<longleftrightarrow>
            connWaitN env i n = None \<and> globalWaitN env i n = None"
    unfolding w by (auto simp: done_chan_def split: option.splits)
  have p2: "connWaitN env i n \<noteq> None \<or> globalWaitN env i n \<noteq> None \<longrightarrow>
            (\<exists>e. waitN env lc i n = Inr (Some e) \<and>
                 (connWaitN env i n = Some e \<or> globalWaitN env i n = Some e))"
    unfolding w by (auto simp: done_chan_def split: option.splits)
  have p3: "Write_loop env lc i b k sent = Some (Inr (0, Some e), sent)"
    if "b \<noteq> []" "0 \<le> lc_mtu lc" "n = int (length (take (nat (lc_mtu lc)) b))"
      "waitN env lc i n = Inr (Some e)" for b k sent e
  proof -
    have mtu: "lc_mtu lc = int (nat (lc_mtu lc))" using that(2) by simp
    show ?thesis
      using that(4) unfolding that(3)
      by (simp only: Write_loop_step[OF mtu that(1)] sum.case option.case)
  qed
  show ?thesis using p1 p2 p3 by blast
qed

text \<open>An instance: the failing third joint wait of the example.\<close>

theorem waitN_joint_witness:
  "waitN ex_Env ex_conn 2 1 = Inr (Some (Error ''canceled'')) \<and>
   waitN ex_Env ex_conn 0 2 = Inr None \<and>
   Write_loop ex_Env ex_conn 2 [5] 4 [[1, 2], [3, 4]] =
     Some (Inr (0, Some (Error ''canceled'')), [[1, 2], [3, 4]])"
proof -
  have a: "lc_connLimiter ex_conn \<noteq> None" "lc_globalLimiter ex_conn \<noteq> None"
    by (simp_all add: ex_conn_def)
  have c: "connWaitN ex_Env 2 1 = None" "globalWaitN ex_Env 2 1 = Some (Error ''canceled'')"
    "connWaitN ex_Env 0 2 = None" "globalWaitN ex_Env 0 2 = None"
    by (simp_all add: ex_Env_def)
  have m: "0 \<le> lc_mtu ex_conn" "(1::int) = int (length (take (nat (lc_mtu ex_conn)) [5 :: byte]))"
    by (simp_all add: ex_conn_def)
  from waitN_joint[OF a, of ex_Env 2 1] c
  have w2: "waitN ex_Env ex_conn 2 1 = Inr (Some (Error ''canceled''))" by auto
  from waitN_joint[OF a, of ex_Env 0 2] c
  have w0: "waitN ex_Env ex_conn 0 2 = Inr None" by auto
  from waitN_joint[OF a, of ex_Env 2 1] m w2
  have "Write_loop ex_Env ex_conn 2 [5] 4 [[1, 2], [3, 4]] =
     Some (Inr (0, Some (Error ''canceled'')), [[1, 2], [3, 4]])"
    by blast
  then show ?thesis using w2 w0 by blast
qed

end
